theory Spec2Isabelle
  imports Main "HOL-Library.AList"
begin

section \<open>Buffer pool manager (src/storage/buffer_pool_manager.cpp)\<close>

subsection \<open>Data model\<close>

text \<open>
  \<^verbatim>\<open>page_id_t\<close> and the pin count are C++ \<^verbatim>\<open>int\<close>; they are modelled as
  unbounded integers (no operation below brings them near \<open>2^31\<close>). A frame id is
  an index into the frame array \<^verbatim>\<open>pages\<close>; frame ids are only ever produced by the
  free list and the replacer, so they are modelled as naturals.
\<close>

type_synonym page_id_t = int
type_synonym frame_id_t = nat

definition INVALID_PAGE_ID :: page_id_t where
  "INVALID_PAGE_ID = -1"

record PageId =
  fd :: int
  page_no :: page_id_t

text \<open>
  A frame: the resident PageId, the page image, the dirty flag and the pin count. The
  page image is kept abstract (\<open>'d\<close>); \<^verbatim>\<open>reset_memory\<close> overwrites it with the
  all-zero image \<open>0\<close>.
\<close>

record 'd Page =
  page_id :: PageId
  data :: 'd
  is_dirty :: bool
  pin_count :: int

text \<open>
  Modelled from the spec: the disk manager is an external collaborator whose source is
  not part of the repository excerpt. \<^verbatim>\<open>read_page\<close> and \<^verbatim>\<open>write_page\<close> move a
  page image by (file handle, page number), \<^verbatim>\<open>allocate_page\<close> returns a fresh page
  number per file (a counter per file handle).
\<close>

record 'd DiskManager =
  disk_pages :: "PageId \<Rightarrow> 'd"
  fd2pageno :: "int \<Rightarrow> page_id_t"

definition read_page :: "PageId \<Rightarrow> 'd DiskManager \<Rightarrow> 'd" where
  "read_page pid dm = disk_pages dm pid"

definition write_page :: "PageId \<Rightarrow> 'd \<Rightarrow> 'd DiskManager \<Rightarrow> 'd DiskManager" where
  "write_page pid buf dm = dm\<lparr>disk_pages := (disk_pages dm)(pid := buf)\<rparr>"

definition allocate_page :: "int \<Rightarrow> 'd DiskManager \<Rightarrow> page_id_t \<times> 'd DiskManager" where
  "allocate_page f dm = (fd2pageno dm f, dm\<lparr>fd2pageno := (fd2pageno dm)(f := fd2pageno dm f + 1)\<rparr>)"

text \<open>
  Modelled from the spec: the LRU replacer (section 4.1; its source is not part of the
  repository excerpt). The evictable frames are kept in a list, least recently unpinned
  first. \<^verbatim>\<open>victim\<close> removes and returns the head, \<^verbatim>\<open>pin\<close> removes a frame (no-op if
  absent), \<^verbatim>\<open>unpin\<close> appends a frame at the most recent end (no-op if present).
\<close>

type_synonym Replacer = "frame_id_t list"

definition replacer_victim :: "Replacer \<Rightarrow> (frame_id_t \<times> Replacer) option" where
  "replacer_victim r = (case r of [] \<Rightarrow> None | f # r' \<Rightarrow> Some (f, r'))"

definition replacer_pin :: "frame_id_t \<Rightarrow> Replacer \<Rightarrow> Replacer" where
  "replacer_pin f r = removeAll f r"

definition replacer_unpin :: "frame_id_t \<Rightarrow> Replacer \<Rightarrow> Replacer" where
  "replacer_unpin f r = (if f \<in> set r then r else r @ [f])"

record 'd BufferPoolManager =
  pages :: "'d Page list"
  page_table :: "(PageId \<times> frame_id_t) list"
  free_list :: "frame_id_t list"
  replacer :: Replacer
  disk_manager :: "'d DiskManager"

definition pool_size :: "'d BufferPoolManager \<Rightarrow> nat" where
  "pool_size s = length (pages s)"

subsection \<open>Operations\<close>

text \<open>
  Every operation takes the pool state and returns its result with the new state. The
  latch serialises the operations and is not modelled. A \<^verbatim>\<open>Page*\<close> is the index of
  the frame it points to; \<^verbatim>\<open>nullptr\<close> is \<open>None\<close>.
\<close>

definition find_victim_page :: "'d BufferPoolManager \<Rightarrow> frame_id_t option \<times> 'd BufferPoolManager" where
  "find_victim_page s =
     (case free_list s of
        f # fl \<Rightarrow> (Some f, s\<lparr>free_list := fl\<rparr>)
      | [] \<Rightarrow>
         (case replacer_victim (replacer s) of
            None \<Rightarrow> (None, s)
          | Some (f, r') \<Rightarrow> (Some f, s\<lparr>replacer := r'\<rparr>)))"

definition update_page ::
  "frame_id_t \<Rightarrow> PageId \<Rightarrow> frame_id_t \<Rightarrow> ('d::zero) BufferPoolManager \<Rightarrow> 'd BufferPoolManager" where
  "update_page page new_page_id new_frame_id s =
     (let old_id = page_id (pages s ! page);
          s1 = (if is_dirty (pages s ! page) \<and> page_no old_id \<noteq> INVALID_PAGE_ID
                then s\<lparr>disk_manager := write_page old_id (data (pages s ! page)) (disk_manager s),
                       pages := (pages s)[page := (pages s ! page)\<lparr>is_dirty := False\<rparr>]\<rparr>
                else s);
          s2 = (if page_no old_id \<noteq> INVALID_PAGE_ID
                then s1\<lparr>page_table := AList.delete old_id (page_table s1)\<rparr>
                else s1);
          s3 = s2\<lparr>pages := (pages s2)[page := (pages s2 ! page)
                  \<lparr>page_id := new_page_id, data := 0, is_dirty := False, pin_count := 0\<rparr>]\<rparr>
      in s3\<lparr>page_table := AList.update new_page_id new_frame_id (page_table s3)\<rparr>)"

definition fetch_page ::
  "PageId \<Rightarrow> ('d::zero) BufferPoolManager \<Rightarrow> frame_id_t option \<times> 'd BufferPoolManager" where
  "fetch_page pid s =
     (case map_of (page_table s) pid of
        Some fid \<Rightarrow>
          (Some fid,
           s\<lparr>pages := (pages s)[fid := (pages s ! fid)\<lparr>pin_count := pin_count (pages s ! fid) + 1\<rparr>],
             replacer := replacer_pin fid (replacer s)\<rparr>)
      | None \<Rightarrow>
          (case find_victim_page s of
             (None, s1) \<Rightarrow> (None, s1)
           | (Some victim, s1) \<Rightarrow>
               (let s2 = update_page victim pid victim s1;
                    buf = read_page pid (disk_manager s2);
                    s3 = s2\<lparr>pages := (pages s2)[victim := (pages s2 ! victim)\<lparr>data := buf, pin_count := 1\<rparr>],
                            replacer := replacer_pin victim (replacer s2)\<rparr>
                in (Some victim, s3))))"

definition unpin_page ::
  "PageId \<Rightarrow> bool \<Rightarrow> 'd BufferPoolManager \<Rightarrow> bool \<times> 'd BufferPoolManager" where
  "unpin_page pid mark_dirty s =
     (case map_of (page_table s) pid of
        None \<Rightarrow> (False, s)
      | Some fid \<Rightarrow>
          if pin_count (pages s ! fid) \<le> 0 then (False, s)
          else
            (let s1 = s\<lparr>pages := (pages s)[fid := (pages s ! fid)\<lparr>pin_count := pin_count (pages s ! fid) - 1\<rparr>]\<rparr>;
                 s2 = (if pin_count (pages s1 ! fid) = 0
                       then s1\<lparr>replacer := replacer_unpin fid (replacer s1)\<rparr> else s1);
                 s3 = (if mark_dirty
                       then s2\<lparr>pages := (pages s2)[fid := (pages s2 ! fid)\<lparr>is_dirty := True\<rparr>]\<rparr> else s2)
             in (True, s3)))"

definition flush_page ::
  "PageId \<Rightarrow> 'd BufferPoolManager \<Rightarrow> bool \<times> 'd BufferPoolManager" where
  "flush_page pid s =
     (case map_of (page_table s) pid of
        None \<Rightarrow> (False, s)
      | Some fid \<Rightarrow>
          (True,
           s\<lparr>disk_manager := write_page pid (data (pages s ! fid)) (disk_manager s),
             pages := (pages s)[fid := (pages s ! fid)\<lparr>is_dirty := False\<rparr>]\<rparr>))"

text \<open>
  \<^verbatim>\<open>new_page\<close> receives the file handle through \<^verbatim>\<open>pid->fd\<close> and writes the
  allocated PageId back through the pointer: the model takes the file handle and returns
  the PageId with the frame.
\<close>

definition new_page ::
  "int \<Rightarrow> ('d::zero) BufferPoolManager \<Rightarrow> (frame_id_t \<times> PageId) option \<times> 'd BufferPoolManager" where
  "new_page page_id_fd s =
     (case find_victim_page s of
        (None, s1) \<Rightarrow> (None, s1)
      | (Some victim, s1) \<Rightarrow>
          (let (pno, dm) = allocate_page page_id_fd (disk_manager s1);
               new_id = \<lparr>fd = page_id_fd, page_no = pno\<rparr>;
               s2 = update_page victim new_id victim (s1\<lparr>disk_manager := dm\<rparr>);
               s3 = s2\<lparr>pages := (pages s2)[victim := (pages s2 ! victim)\<lparr>is_dirty := True, pin_count := 1\<rparr>],
                       replacer := replacer_pin victim (replacer s2)\<rparr>
           in (Some (victim, new_id), s3)))"

definition delete_page ::
  "PageId \<Rightarrow> ('d::zero) BufferPoolManager \<Rightarrow> bool \<times> 'd BufferPoolManager" where
  "delete_page pid s =
     (case map_of (page_table s) pid of
        None \<Rightarrow> (True, s)
      | Some fid \<Rightarrow>
          if pin_count (pages s ! fid) > 0 then (False, s)
          else
            (let s1 = s\<lparr>replacer := replacer_pin fid (replacer s)\<rparr>;
                 s2 = (if is_dirty (pages s1 ! fid)
                       then s1\<lparr>disk_manager := write_page pid (data (pages s1 ! fid)) (disk_manager s1)\<rparr>
                       else s1);
                 s3 = s2\<lparr>page_table := AList.delete pid (page_table s2)\<rparr>;
                 s4 = s3\<lparr>pages := (pages s3)[fid := (pages s3 ! fid)
                         \<lparr>page_id := \<lparr>fd = fd pid, page_no = INVALID_PAGE_ID\<rparr>, data := 0,
                          is_dirty := False, pin_count := 0\<rparr>]\<rparr>
             in (True, s4\<lparr>free_list := free_list s4 @ [fid]\<rparr>)))"

text \<open>
  The page table is a \<^verbatim>\<open>std::unordered_map\<close>: an association list with distinct
  keys, looked up with \<open>map_of\<close>. \<^verbatim>\<open>flush_all_pages\<close> walks its entries.
\<close>

definition flush_all_pages :: "int \<Rightarrow> 'd BufferPoolManager \<Rightarrow> 'd BufferPoolManager" where
  "flush_all_pages f s =
     fold (\<lambda>(pid, fid) s'.
            if fd pid = f
            then s'\<lparr>disk_manager := write_page pid (data (pages s' ! fid)) (disk_manager s'),
                    pages := (pages s')[fid := (pages s' ! fid)\<lparr>is_dirty := False\<rparr>]\<rparr>
            else s')
          (page_table s) s"

subsection \<open>Example pools\<close>

definition ex_pid :: "int \<Rightarrow> PageId" where
  "ex_pid n = \<lparr>fd = 0, page_no = n\<rparr>"

definition ex_disk :: "nat DiskManager" where
  "ex_disk = \<lparr>disk_pages = (\<lambda>_. 0), fd2pageno = (\<lambda>_. 8)\<rparr>"

definition ex_pool_unpin :: "nat BufferPoolManager" where
  "ex_pool_unpin =
     \<lparr>pages = [\<lparr>page_id = ex_pid 7, data = 5, is_dirty = False, pin_count = 1\<rparr>,
               \<lparr>page_id = ex_pid 3, data = 6, is_dirty = True, pin_count = 2\<rparr>],
      page_table = [(ex_pid 7, 0), (ex_pid 3, 1)],
      free_list = [], replacer = [], disk_manager = ex_disk\<rparr>"

definition ex_pool_fresh :: "nat \<Rightarrow> int \<Rightarrow> nat BufferPoolManager" where
  "ex_pool_fresh n next_page =
     \<lparr>pages = replicate n \<lparr>page_id = ex_pid INVALID_PAGE_ID, data = 0, is_dirty = False, pin_count = 0\<rparr>,
      page_table = [], free_list = [0..<n], replacer = [],
      disk_manager = \<lparr>disk_pages = (\<lambda>_. 0), fd2pageno = (\<lambda>_. next_page)\<rparr>\<rparr>"

subsection \<open>Unpinning a page\<close>

text \<open>
  C6. For every PageId and flag \<open>mark_dirty\<close>: \<^verbatim>\<open>unpin_page\<close> returns false and
  changes no state when the PageId is not resident or the resident frame's pin count is
  \<open>\<le> 0\<close>. Otherwise it returns true, decrements the pin count, adds the frame to the
  replacer's evictable set exactly when the count reaches 0, sets the dirty flag when
  \<open>mark_dirty\<close> holds and never clears it, and changes nothing else. The frame index
  the page table gives is assumed to lie inside the frame array.
\<close>

theorem unpin_page_correct:
  assumes "unpin_page pid mark_dirty s = (ok, s')"
  shows "(map_of (page_table s) pid = None \<longrightarrow> \<not> ok \<and> s' = s) \<and>
         (\<forall>fid. map_of (page_table s) pid = Some fid \<longrightarrow>
            (pin_count (pages s ! fid) \<le> 0 \<longrightarrow> \<not> ok \<and> s' = s) \<and>
            (0 < pin_count (pages s ! fid) \<and> fid < length (pages s) \<longrightarrow>
               ok \<and>
               pin_count (pages s' ! fid) = pin_count (pages s ! fid) - 1 \<and>
               set (replacer s') =
                 (if pin_count (pages s' ! fid) = 0 then insert fid (set (replacer s)) else set (replacer s)) \<and>
               (pin_count (pages s' ! fid) \<noteq> 0 \<longrightarrow> replacer s' = replacer s) \<and>
               is_dirty (pages s' ! fid) = (is_dirty (pages s ! fid) \<or> mark_dirty) \<and>
               page_id (pages s' ! fid) = page_id (pages s ! fid) \<and>
               data (pages s' ! fid) = data (pages s ! fid) \<and>
               length (pages s') = length (pages s) \<and>
               (\<forall>g. g \<noteq> fid \<longrightarrow> pages s' ! g = pages s ! g) \<and>
               page_table s' = page_table s \<and> free_list s' = free_list s \<and>
               disk_manager s' = disk_manager s))"
  using assms
  by (auto simp: unpin_page_def Let_def replacer_unpin_def split: option.splits if_splits)

theorem unpin_page_correct_witness:
  "map_of (page_table ex_pool_unpin) (ex_pid 7) = Some 0 \<and>
   0 < pin_count (pages ex_pool_unpin ! 0) \<and> 0 < length (pages ex_pool_unpin) \<and>
   fst (unpin_page (ex_pid 7) True ex_pool_unpin) \<and>
   pin_count (pages (snd (unpin_page (ex_pid 7) True ex_pool_unpin)) ! 0) = 0 \<and>
   set (replacer (snd (unpin_page (ex_pid 7) True ex_pool_unpin))) = {0} \<and>
   is_dirty (pages (snd (unpin_page (ex_pid 7) True ex_pool_unpin)) ! 0) \<and>
   map_of (page_table ex_pool_unpin) (ex_pid 4) = None \<and>
   unpin_page (ex_pid 4) True ex_pool_unpin = (False, ex_pool_unpin)"
  using unpin_page_correct [of "ex_pid 7" True ex_pool_unpin
          "fst (unpin_page (ex_pid 7) True ex_pool_unpin)" "snd (unpin_page (ex_pid 7) True ex_pool_unpin)"]
  by (simp add: ex_pool_unpin_def ex_pid_def unpin_page_def replacer_unpin_def)

subsection \<open>Capacity of the pool\<close>

fun fetch_pages :: "PageId list \<Rightarrow> ('d::zero) BufferPoolManager \<Rightarrow> frame_id_t option list \<times> 'd BufferPoolManager" where
  "fetch_pages [] s = ([], s)"
| "fetch_pages (p # ps) s =
     (case fetch_page p s of (r, s1) \<Rightarrow>
        (case fetch_pages ps s1 of (rs, s2) \<Rightarrow> (r # rs, s2)))"

definition fresh_pool :: "'d BufferPoolManager \<Rightarrow> bool" where
  "fresh_pool s \<longleftrightarrow>
     page_table s = [] \<and> replacer s = [] \<and> free_list s = [0..<length (pages s)] \<and>
     list_all (\<lambda>pg. page_no (page_id pg) = INVALID_PAGE_ID) (pages s)"

definition pinned_prefix :: "'d BufferPoolManager \<Rightarrow> PageId set \<Rightarrow> bool" where
  "pinned_prefix s T \<longleftrightarrow>
     finite T \<and> card T \<le> length (pages s) \<and> replacer s = [] \<and>
     free_list s = [card T..<length (pages s)] \<and>
     dom (map_of (page_table s)) = T \<and>
     (\<forall>f. card T \<le> f \<and> f < length (pages s) \<longrightarrow> page_no (page_id (pages s ! f)) = INVALID_PAGE_ID)"

lemma nth_list_update_gen:
  "(xs[i := x]) ! j = (if i = j \<and> i < length xs then x else xs ! j)"
  by (cases "i < length xs") (auto simp: nth_list_update list_update_beyond)

lemma fresh_pool_pinned_prefix: "fresh_pool s \<Longrightarrow> pinned_prefix s {}"
  by (auto simp: fresh_pool_def pinned_prefix_def list_all_length)

lemma fetch_page_hit_prefix:
  assumes "pinned_prefix s T" "p \<in> T" "fetch_page p s = (r, s')"
  shows "r \<noteq> None \<and> pinned_prefix s' T"
proof -
  from assms(1,2) obtain f where f: "map_of (page_table s) p = Some f"
    by (auto simp: pinned_prefix_def)
  with assms show ?thesis
    by (auto simp: fetch_page_def pinned_prefix_def replacer_pin_def nth_list_update_gen)
qed

lemma fetch_page_miss_prefix:
  assumes "pinned_prefix s T" "p \<notin> T" "card T < length (pages s)" "fetch_page p s = (r, s')"
  shows "r \<noteq> None \<and> pinned_prefix s' (insert p T)"
proof -
  let ?k = "card T"
  from assms(1,2) have n: "map_of (page_table s) p = None"
    by (auto simp: pinned_prefix_def)
  from assms(1,3) have fl: "free_list s = ?k # [Suc ?k..<length (pages s)]"
    by (simp add: pinned_prefix_def upt_conv_Cons)
  from assms(1) have inv: "page_no (page_id (pages s ! ?k)) = INVALID_PAGE_ID"
    using assms(3) by (simp add: pinned_prefix_def)
  from assms(1) have fin: "finite T" and rep: "replacer s = []"
    and dm: "dom (map_of (page_table s)) = T"
    and rest: "\<forall>f. ?k \<le> f \<and> f < length (pages s) \<longrightarrow> page_no (page_id (pages s ! f)) = INVALID_PAGE_ID"
    by (simp_all add: pinned_prefix_def)
  from assms(4) n fl inv rep have r: "r = Some ?k"
    and pt: "page_table s' = AList.update p ?k (page_table s)"
    and fl': "free_list s' = [Suc ?k..<length (pages s)]"
    and rep': "replacer s' = []"
    and len: "length (pages s') = length (pages s)"
    and oth: "\<forall>f. f \<noteq> ?k \<longrightarrow> pages s' ! f = pages s ! f"
    by (auto simp: fetch_page_def find_victim_page_def update_page_def Let_def replacer_pin_def)
  have c: "card (insert p T) = Suc ?k" using fin assms(2) by simp
  show ?thesis
    unfolding pinned_prefix_def c
    using r pt fl' rep' len oth fin dm rest assms(3)
    by (auto simp: update_conv')
qed

lemma fetch_page_full_prefix:
  assumes "pinned_prefix s T" "p \<notin> T" "card T = length (pages s)"
  shows "fst (fetch_page p s) = None"
proof -
  from assms(1,2) have n: "map_of (page_table s) p = None"
    by (auto simp: pinned_prefix_def)
  with assms show ?thesis
    by (simp add: fetch_page_def find_victim_page_def pinned_prefix_def replacer_victim_def)
qed

lemma fetch_page_length: "fetch_page p s = (r, s') \<Longrightarrow> length (pages s') = length (pages s)"
  by (auto simp: fetch_page_def find_victim_page_def update_page_def Let_def
      split: option.splits list.splits prod.splits if_splits)

lemma fetch_pages_prefix:
  "pinned_prefix s T \<Longrightarrow> card (T \<union> set ps) \<le> length (pages s) \<Longrightarrow> fetch_pages ps s = (rs, s') \<Longrightarrow>
   length rs = length ps \<and> None \<notin> set rs \<and> pinned_prefix s' (T \<union> set ps) \<and> length (pages s') = length (pages s)"
proof (induction ps arbitrary: s T rs s')
  case Nil
  then show ?case by simp
next
  case (Cons p ps)
  obtain r s1 where f: "fetch_page p s = (r, s1)" by (cases "fetch_page p s")
  obtain rs' s2 where fs: "fetch_pages ps s1 = (rs', s2)" by (cases "fetch_pages ps s1")
  from Cons.prems(3) f fs have rs: "rs = r # rs'" and s': "s' = s2" by auto
  have fin: "finite T" using Cons.prems(1) by (simp add: pinned_prefix_def)
  have len: "length (pages s1) = length (pages s)" using f by (rule fetch_page_length)
  have step: "r \<noteq> None \<and> pinned_prefix s1 (insert p T)"
  proof (cases "p \<in> T")
    case True
    then show ?thesis using fetch_page_hit_prefix[OF Cons.prems(1) True f] by (simp add: insert_absorb)
  next
    case False
    have "card (insert p T) \<le> card (T \<union> set (p # ps))"
      using fin by (intro card_mono) auto
    then have "card T < length (pages s)" using False fin Cons.prems(2) by simp
    then show ?thesis using fetch_page_miss_prefix[OF Cons.prems(1) False _ f] by simp
  qed
  have "card (insert p T \<union> set ps) \<le> length (pages s1)" using Cons.prems(2) len by simp
  from Cons.IH[OF conjunct2[OF step] this fs] step rs s' len show ?case by auto
qed

text \<open>
  C2. In a freshly constructed pool, every sequence of \<^verbatim>\<open>fetch_page\<close> calls that
  touches at most \<open>pool_size\<close> distinct PageIds, with no \<^verbatim>\<open>unpin_page\<close> in between,
  returns a frame at every call; once \<open>pool_size\<close> distinct PageIds are pinned, the
  fetch of any further PageId returns null.
\<close>

theorem fetch_page_capacity:
  assumes "fresh_pool s" and "card (set ps) \<le> pool_size s" and "fetch_pages ps s = (rs, s')"
  shows "length rs = length ps \<and> (\<forall>r \<in> set rs. r \<noteq> None) \<and>
         (card (set ps) = pool_size s \<longrightarrow> (\<forall>p. p \<notin> set ps \<longrightarrow> fst (fetch_page p s') = None))"
proof -
  have pp: "pinned_prefix s {}" using assms(1) by (rule fresh_pool_pinned_prefix)
  have "length rs = length ps \<and> None \<notin> set rs \<and> pinned_prefix s' ({} \<union> set ps) \<and> length (pages s') = length (pages s)"
    using fetch_pages_prefix[OF pp _ assms(3)] assms(2) by (simp add: pool_size_def)
  then have a: "length rs = length ps" and b: "None \<notin> set rs" and c: "pinned_prefix s' (set ps)"
    and d: "length (pages s') = length (pages s)" by simp_all
  have "\<forall>r \<in> set rs. r \<noteq> None" using b by metis
  moreover have "card (set ps) = pool_size s \<longrightarrow> (\<forall>p. p \<notin> set ps \<longrightarrow> fst (fetch_page p s') = None)"
    using fetch_page_full_prefix[OF c] d by (simp add: pool_size_def)
  ultimately show ?thesis using a by simp
qed

theorem fetch_page_capacity_witness:
  "fresh_pool (ex_pool_fresh (Suc (Suc 0)) 8) \<and>
   card (set [ex_pid 1, ex_pid 1, ex_pid 2]) \<le> pool_size (ex_pool_fresh (Suc (Suc 0)) 8) \<and>
   card (set [ex_pid 1, ex_pid 1, ex_pid 2]) = pool_size (ex_pool_fresh (Suc (Suc 0)) 8) \<and>
   fst (fetch_pages [ex_pid 1, ex_pid 1, ex_pid 2] (ex_pool_fresh (Suc (Suc 0)) 8)) = [Some 0, Some 0, Some 1] \<and>
   fst (fetch_page (ex_pid 3) (snd (fetch_pages [ex_pid 1, ex_pid 1, ex_pid 2] (ex_pool_fresh (Suc (Suc 0)) 8)))) = None"
  using fetch_page_capacity [of "ex_pool_fresh (Suc (Suc 0)) 8" "[ex_pid 1, ex_pid 1, ex_pid 2]"
      "fst (fetch_pages [ex_pid 1, ex_pid 1, ex_pid 2] (ex_pool_fresh (Suc (Suc 0)) 8))"
      "snd (fetch_pages [ex_pid 1, ex_pid 1, ex_pid 2] (ex_pool_fresh (Suc (Suc 0)) 8))"]
  by (simp add: fresh_pool_def pool_size_def fetch_page_def find_victim_page_def update_page_def
      replacer_pin_def replacer_victim_def read_page_def ex_pool_fresh_def ex_pid_def
      INVALID_PAGE_ID_def Let_def)

subsection \<open>The page table and the frames agree\<close>

datatype bpm_op =
    Fetch PageId | Unpin PageId bool | Flush PageId | New int | Delete PageId | FlushAll int

fun apply_op :: "bpm_op \<Rightarrow> ('d::zero) BufferPoolManager \<Rightarrow> 'd BufferPoolManager" where
  "apply_op (Fetch p) s = snd (fetch_page p s)"
| "apply_op (Unpin p d) s = snd (unpin_page p d s)"
| "apply_op (Flush p) s = snd (flush_page p s)"
| "apply_op (New f) s = snd (new_page f s)"
| "apply_op (Delete p) s = snd (delete_page p s)"
| "apply_op (FlushAll f) s = flush_all_pages f s"

definition run_ops :: "bpm_op list \<Rightarrow> ('d::zero) BufferPoolManager \<Rightarrow> 'd BufferPoolManager" where
  "run_ops ops s = fold apply_op ops s"

definition page_table_consistent :: "'d BufferPoolManager \<Rightarrow> bool" where
  "page_table_consistent s \<longleftrightarrow>
     (\<forall>p. page_no p \<noteq> INVALID_PAGE_ID \<longrightarrow>
        ((\<exists>f. map_of (page_table s) p = Some f) \<longleftrightarrow>
         (\<exists>f. f < length (pages s) \<and> page_id (pages s ! f) = p)) \<and>
        (\<forall>f. map_of (page_table s) p = Some f \<longrightarrow>
           f < length (pages s) \<and> page_id (pages s ! f) = p)) \<and>
     (\<forall>f g. f < length (pages s) \<and> g < length (pages s) \<and>
        page_id (pages s ! f) = page_id (pages s ! g) \<and>
        page_no (page_id (pages s ! f)) \<noteq> INVALID_PAGE_ID \<longrightarrow> f = g)"

fun op_ok :: "'d BufferPoolManager \<Rightarrow> bpm_op \<Rightarrow> bool" where
  "op_ok s (Fetch p) \<longleftrightarrow> 0 \<le> page_no p \<and> page_no p < fd2pageno (disk_manager s) (fd p)"
| "op_ok s _ \<longleftrightarrow> True"

fun ops_ok :: "('d::zero) BufferPoolManager \<Rightarrow> bpm_op list \<Rightarrow> bool" where
  "ops_ok s [] \<longleftrightarrow> True"
| "ops_ok s (x # xs) \<longleftrightarrow> op_ok s x \<and> ops_ok (apply_op x s) xs"

definition bpm_inv :: "'d BufferPoolManager \<Rightarrow> bool" where
  "bpm_inv s \<longleftrightarrow>
     (\<forall>p f. map_of (page_table s) p = Some f \<longrightarrow>
        f < length (pages s) \<and> page_id (pages s ! f) = p \<and> page_no p \<noteq> INVALID_PAGE_ID) \<and>
     (\<forall>f. f < length (pages s) \<and> page_no (page_id (pages s ! f)) \<noteq> INVALID_PAGE_ID \<longrightarrow>
        map_of (page_table s) (page_id (pages s ! f)) = Some f \<and>
        0 \<le> page_no (page_id (pages s ! f)) \<and>
        page_no (page_id (pages s ! f)) < fd2pageno (disk_manager s) (fd (page_id (pages s ! f)))) \<and>
     distinct (free_list s) \<and>
     (\<forall>f \<in> set (free_list s). f < length (pages s) \<and> page_no (page_id (pages s ! f)) = INVALID_PAGE_ID) \<and>
     (\<forall>f \<in> set (replacer s). f < length (pages s)) \<and>
     (\<forall>f. 0 \<le> fd2pageno (disk_manager s) f)"

lemma bpm_inv_consistent: "bpm_inv s \<Longrightarrow> page_table_consistent s"
proof -
  assume i: "bpm_inv s"
  have a: "\<And>p f. map_of (page_table s) p = Some f \<Longrightarrow> f < length (pages s) \<and> page_id (pages s ! f) = p"
    using i by (simp add: bpm_inv_def)
  have b: "\<And>f. f < length (pages s) \<Longrightarrow> page_no (page_id (pages s ! f)) \<noteq> INVALID_PAGE_ID \<Longrightarrow>
      map_of (page_table s) (page_id (pages s ! f)) = Some f"
    using i by (simp add: bpm_inv_def)
  have c: "f = g" if "f < length (pages s)" "g < length (pages s)"
      "page_id (pages s ! f) = page_id (pages s ! g)" "page_no (page_id (pages s ! f)) \<noteq> INVALID_PAGE_ID" for f g
  proof -
    have 1: "map_of (page_table s) (page_id (pages s ! f)) = Some f"
      using b[OF that(1) that(4)] .
    have "page_no (page_id (pages s ! g)) \<noteq> INVALID_PAGE_ID"
      using that(3,4) by metis
    then have 2: "map_of (page_table s) (page_id (pages s ! g)) = Some g"
      using b[OF that(2)] by blast
    show "f = g" using 1 2 that(3) by (metis option.inject)
  qed
  have 1: "(\<exists>f. map_of (page_table s) p = Some f) \<longleftrightarrow>
         (\<exists>f. f < length (pages s) \<and> page_id (pages s ! f) = p)" if "page_no p \<noteq> INVALID_PAGE_ID" for p
    using a b that by blast
  have 2: "\<forall>f. map_of (page_table s) p = Some f \<longrightarrow> f < length (pages s) \<and> page_id (pages s ! f) = p" for p
    using a by blast
  have A: "\<forall>p. page_no p \<noteq> INVALID_PAGE_ID \<longrightarrow>
        ((\<exists>f. map_of (page_table s) p = Some f) \<longleftrightarrow>
         (\<exists>f. f < length (pages s) \<and> page_id (pages s ! f) = p)) \<and>
        (\<forall>f. map_of (page_table s) p = Some f \<longrightarrow>
           f < length (pages s) \<and> page_id (pages s ! f) = p)"
    using 1 2 by blast
  have B: "\<forall>f g. f < length (pages s) \<and> g < length (pages s) \<and>
        page_id (pages s ! f) = page_id (pages s ! g) \<and>
        page_no (page_id (pages s ! f)) \<noteq> INVALID_PAGE_ID \<longrightarrow> f = g"
    using c by blast
  show ?thesis
    unfolding page_table_consistent_def using A B by (rule conjI)
qed

lemma fresh_pool_inv:
  "fresh_pool s \<Longrightarrow> \<forall>f. 0 \<le> fd2pageno (disk_manager s) f \<Longrightarrow> bpm_inv s"
  by (auto simp: fresh_pool_def bpm_inv_def list_all_length)

text \<open>The state between taking a victim frame and installing the new page in it.\<close>

definition victim_inv :: "'d BufferPoolManager \<Rightarrow> frame_id_t \<Rightarrow> bool" where
  "victim_inv s v \<longleftrightarrow>
     v < length (pages s) \<and>
     (\<forall>p f. map_of (page_table s) p = Some f \<longrightarrow>
        f < length (pages s) \<and> page_id (pages s ! f) = p \<and> page_no p \<noteq> INVALID_PAGE_ID) \<and>
     (\<forall>f. f < length (pages s) \<and> page_no (page_id (pages s ! f)) \<noteq> INVALID_PAGE_ID \<longrightarrow>
        map_of (page_table s) (page_id (pages s ! f)) = Some f \<and>
        0 \<le> page_no (page_id (pages s ! f)) \<and>
        page_no (page_id (pages s ! f)) < fd2pageno (disk_manager s) (fd (page_id (pages s ! f)))) \<and>
     distinct (free_list s) \<and> v \<notin> set (free_list s) \<and>
     (\<forall>f \<in> set (free_list s). f < length (pages s) \<and> page_no (page_id (pages s ! f)) = INVALID_PAGE_ID) \<and>
     (\<forall>f \<in> set (replacer s). f < length (pages s)) \<and>
     (\<forall>f. 0 \<le> fd2pageno (disk_manager s) f)"

lemma find_victim_page_inv:
  "bpm_inv s \<Longrightarrow> find_victim_page s = (Some v, s1) \<Longrightarrow>
   victim_inv s1 v \<and> disk_manager s1 = disk_manager s \<and> page_table s1 = page_table s"
  by (auto simp: find_victim_page_def bpm_inv_def victim_inv_def replacer_victim_def
      split: list.splits option.splits)

lemma find_victim_page_none:
  "find_victim_page s = (None, s1) \<Longrightarrow> s1 = s"
  by (auto simp: find_victim_page_def replacer_victim_def split: list.splits option.splits)

lemma update_page_pages:
  "v < length (pages s) \<Longrightarrow>
   pages (update_page v p v s) =
     (pages s)[v := (pages s ! v)\<lparr>page_id := p, data := 0, is_dirty := False, pin_count := 0\<rparr>]"
  by (simp add: update_page_def Let_def)

lemma update_page_table:
  "map_of (page_table (update_page v p w s)) =
     ((if page_no (page_id (pages s ! v)) \<noteq> INVALID_PAGE_ID
       then (map_of (page_table s))(page_id (pages s ! v) := None) else map_of (page_table s))(p \<mapsto> w))"
  by (simp add: update_page_def Let_def update_conv' delete_conv')

lemma update_page_rest:
  "free_list (update_page v p w s) = free_list s \<and> replacer (update_page v p w s) = replacer s \<and>
   fd2pageno (disk_manager (update_page v p w s)) = fd2pageno (disk_manager s)"
  by (simp add: update_page_def Let_def write_page_def)

lemma update_page_inv:
  assumes "victim_inv s v" "0 \<le> page_no p" "page_no p < fd2pageno (disk_manager s) (fd p)"
    "map_of (page_table s) p = None"
  shows "bpm_inv (update_page v p v s)"
proof -
  let ?s = "update_page v p v s"
  let ?old = "page_id (pages s ! v)"
  from assms(1) have v: "v < length (pages s)" by (simp add: victim_inv_def)
  have tab: "\<And>q f. map_of (page_table s) q = Some f \<Longrightarrow>
       f < length (pages s) \<and> page_id (pages s ! f) = q \<and> page_no q \<noteq> INVALID_PAGE_ID"
    using assms(1) by (simp add: victim_inv_def)
  have frm: "\<And>f. f < length (pages s) \<Longrightarrow> page_no (page_id (pages s ! f)) \<noteq> INVALID_PAGE_ID \<Longrightarrow>
        map_of (page_table s) (page_id (pages s ! f)) = Some f \<and>
        0 \<le> page_no (page_id (pages s ! f)) \<and>
        page_no (page_id (pages s ! f)) < fd2pageno (disk_manager s) (fd (page_id (pages s ! f)))"
    using assms(1) by (simp add: victim_inv_def)
  have fl: "distinct (free_list s)" "v \<notin> set (free_list s)"
    "\<And>f. f \<in> set (free_list s) \<Longrightarrow> f < length (pages s) \<and> page_no (page_id (pages s ! f)) = INVALID_PAGE_ID"
    "\<And>f. f \<in> set (replacer s) \<Longrightarrow> f < length (pages s)"
    "\<And>f. 0 \<le> fd2pageno (disk_manager s) f"
    using assms(1) by (simp_all add: victim_inv_def)
  have len: "length (pages ?s) = length (pages s)" by (simp add: update_page_pages[OF v])
  have pid: "\<And>f. f < length (pages s) \<Longrightarrow> page_id (pages ?s ! f) = (if f = v then p else page_id (pages s ! f))"
    by (simp add: update_page_pages[OF v] nth_list_update_gen)
  have tb: "\<And>q. map_of (page_table ?s) q =
      (if q = p then Some v else if page_no ?old \<noteq> INVALID_PAGE_ID \<and> q = ?old then None
       else map_of (page_table s) q)"
    by (simp add: update_page_table)
  have rest: "free_list ?s = free_list s" "replacer ?s = replacer s"
    "fd2pageno (disk_manager ?s) = fd2pageno (disk_manager s)"
    using update_page_rest[of v p v s] by simp_all
  have vp: "page_no p \<noteq> INVALID_PAGE_ID" using assms(2) by (simp add: INVALID_PAGE_ID_def)
  have 1: "f < length (pages ?s) \<and> page_id (pages ?s ! f) = q \<and> page_no q \<noteq> INVALID_PAGE_ID"
    if "map_of (page_table ?s) q = Some f" for q f
  proof (cases "q = p")
    case True
    from that True have fv: "f = v" by (simp add: tb)
    show ?thesis unfolding fv True using v vp len pid[OF v] by simp
  next
    case False
    with that have m: "map_of (page_table s) q = Some f" and no: "\<not> (page_no ?old \<noteq> INVALID_PAGE_ID \<and> q = ?old)"
      by (auto simp: tb split: if_splits)
    from tab[OF m] have f: "f < length (pages s)" "page_id (pages s ! f) = q" "page_no q \<noteq> INVALID_PAGE_ID"
      by simp_all
    have "f \<noteq> v" using f no by auto
    then show ?thesis using f by (simp add: len pid)
  qed
  have 2: "map_of (page_table ?s) (page_id (pages ?s ! f)) = Some f \<and>
        0 \<le> page_no (page_id (pages ?s ! f)) \<and>
        page_no (page_id (pages ?s ! f)) < fd2pageno (disk_manager ?s) (fd (page_id (pages ?s ! f)))"
    if "f < length (pages ?s)" "page_no (page_id (pages ?s ! f)) \<noteq> INVALID_PAGE_ID" for f
  proof (cases "f = v")
    case True
    then show ?thesis using assms(2,3) v by (simp add: tb pid rest)
  next
    case False
    from that have f: "f < length (pages s)" by (simp add: len)
    with that False have val: "page_no (page_id (pages s ! f)) \<noteq> INVALID_PAGE_ID" by (simp add: pid)
    note F = frm[OF f val]
    have ne_p: "page_id (pages s ! f) \<noteq> p" using F assms(4) by auto
    have ne_old: "page_id (pages s ! f) \<noteq> ?old \<or> page_no ?old = INVALID_PAGE_ID"
    proof (rule ccontr)
      assume "\<not> ?thesis"
      then have e: "page_id (pages s ! f) = ?old" and vo: "page_no ?old \<noteq> INVALID_PAGE_ID" by auto
      from frm[OF v vo] have "map_of (page_table s) ?old = Some v" by simp
      with F e have "f = v" by simp
      with False show False by simp
    qed
    show ?thesis using F ne_p ne_old f False by (auto simp: tb pid rest)
  qed
  have 4: "f < length (pages ?s) \<and> page_no (page_id (pages ?s ! f)) = INVALID_PAGE_ID"
    if "f \<in> set (free_list ?s)" for f
  proof -
    from that have m: "f \<in> set (free_list s)" by (simp add: rest)
    with fl(2) have "f \<noteq> v" by auto
    then show ?thesis using fl(3)[OF m] by (simp add: len pid)
  qed
  show ?thesis
    unfolding bpm_inv_def
    using 1 2 4 fl(1,4,5) by (simp add: rest len)
qed

lemma bpm_inv_frame:
  assumes "bpm_inv s" "length (pages s') = length (pages s)"
    "\<And>f. f < length (pages s) \<Longrightarrow> page_id (pages s' ! f) = page_id (pages s ! f)"
    "map_of (page_table s') = map_of (page_table s)" "free_list s' = free_list s"
    "\<And>f. f \<in> set (replacer s') \<Longrightarrow> f \<in> set (replacer s) \<or> f < length (pages s)"
    "fd2pageno (disk_manager s') = fd2pageno (disk_manager s)"
  shows "bpm_inv s'"
proof -
  have r: "\<forall>f \<in> set (replacer s'). f < length (pages s)"
    using assms(1,6) unfolding bpm_inv_def by blast
  show ?thesis
    using assms(1-5,7) r unfolding bpm_inv_def by auto
qed

lemma fetch_page_inv:
  assumes "bpm_inv s" "0 \<le> page_no p" "page_no p < fd2pageno (disk_manager s) (fd p)"
  shows "bpm_inv (snd (fetch_page p s))"
proof (cases "map_of (page_table s) p")
  case (Some fid)
  then have e: "snd (fetch_page p s) =
      s\<lparr>pages := (pages s)[fid := (pages s ! fid)\<lparr>pin_count := pin_count (pages s ! fid) + 1\<rparr>],
        replacer := replacer_pin fid (replacer s)\<rparr>"
    by (simp add: fetch_page_def)
  show ?thesis unfolding e
    by (rule bpm_inv_frame[OF assms(1)]) (auto simp: nth_list_update_gen replacer_pin_def)
next
  case None
  show ?thesis
  proof (cases "find_victim_page s")
    case (Pair r s1)
    show ?thesis
    proof (cases r)
      case N: None
      with Pair None find_victim_page_none[of s s1] show ?thesis
        using assms(1) by (simp add: fetch_page_def)
    next
      case (Some v)
      from find_victim_page_inv[OF assms(1) Pair[unfolded Some]]
      have vi: "victim_inv s1 v" and dm: "disk_manager s1 = disk_manager s"
        and pt: "page_table s1 = page_table s" by simp_all
      let ?s2 = "update_page v p v s1"
      have i2: "bpm_inv ?s2"
        using update_page_inv[OF vi assms(2)] assms(3) None dm pt by simp
      have e: "snd (fetch_page p s) =
        ?s2\<lparr>pages := (pages ?s2)[v := (pages ?s2 ! v)\<lparr>data := read_page p (disk_manager ?s2), pin_count := 1\<rparr>],
            replacer := replacer_pin v (replacer ?s2)\<rparr>"
        using None Pair Some by (simp add: fetch_page_def Let_def)
      show ?thesis unfolding e
        by (rule bpm_inv_frame[OF i2]) (auto simp: nth_list_update_gen replacer_pin_def)
    qed
  qed
qed

lemma unpin_page_inv: "bpm_inv s \<Longrightarrow> bpm_inv (snd (unpin_page p d s))"
proof -
  assume i: "bpm_inv s"
  show ?thesis
  proof (cases "map_of (page_table s) p")
    case None
    then show ?thesis using i by (simp add: unpin_page_def)
  next
    case (Some fid)
    then have "fid < length (pages s)" using i by (simp add: bpm_inv_def)
    then show ?thesis
      by (intro bpm_inv_frame[OF i])
        (auto simp: unpin_page_def Some Let_def nth_list_update_gen replacer_unpin_def split: if_splits)
  qed
qed

lemma flush_page_inv: "bpm_inv s \<Longrightarrow> bpm_inv (snd (flush_page p s))"
  by (erule bpm_inv_frame)
    (auto simp: flush_page_def nth_list_update_gen write_page_def split: option.splits)

lemma flush_all_pages_fold:
  "length (pages (fold (\<lambda>(pid, fid) s'.
            if fd pid = f
            then s'\<lparr>disk_manager := write_page pid (data (pages s' ! fid)) (disk_manager s'),
                    pages := (pages s')[fid := (pages s' ! fid)\<lparr>is_dirty := False\<rparr>]\<rparr>
            else s') xs s)) = length (pages s) \<and>
   (\<forall>g. page_id (pages (fold (\<lambda>(pid, fid) s'.
            if fd pid = f
            then s'\<lparr>disk_manager := write_page pid (data (pages s' ! fid)) (disk_manager s'),
                    pages := (pages s')[fid := (pages s' ! fid)\<lparr>is_dirty := False\<rparr>]\<rparr>
            else s') xs s) ! g) = page_id (pages s ! g)) \<and>
   page_table (fold (\<lambda>(pid, fid) s'.
            if fd pid = f
            then s'\<lparr>disk_manager := write_page pid (data (pages s' ! fid)) (disk_manager s'),
                    pages := (pages s')[fid := (pages s' ! fid)\<lparr>is_dirty := False\<rparr>]\<rparr>
            else s') xs s) = page_table s \<and>
   free_list (fold (\<lambda>(pid, fid) s'.
            if fd pid = f
            then s'\<lparr>disk_manager := write_page pid (data (pages s' ! fid)) (disk_manager s'),
                    pages := (pages s')[fid := (pages s' ! fid)\<lparr>is_dirty := False\<rparr>]\<rparr>
            else s') xs s) = free_list s \<and>
   replacer (fold (\<lambda>(pid, fid) s'.
            if fd pid = f
            then s'\<lparr>disk_manager := write_page pid (data (pages s' ! fid)) (disk_manager s'),
                    pages := (pages s')[fid := (pages s' ! fid)\<lparr>is_dirty := False\<rparr>]\<rparr>
            else s') xs s) = replacer s \<and>
   fd2pageno (disk_manager (fold (\<lambda>(pid, fid) s'.
            if fd pid = f
            then s'\<lparr>disk_manager := write_page pid (data (pages s' ! fid)) (disk_manager s'),
                    pages := (pages s')[fid := (pages s' ! fid)\<lparr>is_dirty := False\<rparr>]\<rparr>
            else s') xs s)) = fd2pageno (disk_manager s)"
  by (induction xs arbitrary: s) (auto simp: nth_list_update_gen write_page_def)

lemma flush_all_pages_inv: "bpm_inv s \<Longrightarrow> bpm_inv (flush_all_pages f s)"
  unfolding flush_all_pages_def
  by (erule bpm_inv_frame) (simp_all add: flush_all_pages_fold)

lemma victim_invD:
  assumes "victim_inv s v"
  shows "v < length (pages s)"
    and "\<And>q f. map_of (page_table s) q = Some f \<Longrightarrow>
         f < length (pages s) \<and> page_id (pages s ! f) = q \<and> page_no q \<noteq> INVALID_PAGE_ID"
    and "\<And>f. f < length (pages s) \<Longrightarrow> page_no (page_id (pages s ! f)) \<noteq> INVALID_PAGE_ID \<Longrightarrow>
          map_of (page_table s) (page_id (pages s ! f)) = Some f \<and>
          0 \<le> page_no (page_id (pages s ! f)) \<and>
          page_no (page_id (pages s ! f)) < fd2pageno (disk_manager s) (fd (page_id (pages s ! f)))"
    and "distinct (free_list s)" and "v \<notin> set (free_list s)"
    and "\<And>f. f \<in> set (free_list s) \<Longrightarrow> f < length (pages s) \<and> page_no (page_id (pages s ! f)) = INVALID_PAGE_ID"
    and "\<And>f. f \<in> set (replacer s) \<Longrightarrow> f < length (pages s)"
    and "\<And>f. 0 \<le> fd2pageno (disk_manager s) f"
  using assms by (simp_all add: victim_inv_def)

lemma victim_invI:
  assumes "v < length (pages s)"
    and "\<And>q f. map_of (page_table s) q = Some f \<Longrightarrow>
         f < length (pages s) \<and> page_id (pages s ! f) = q \<and> page_no q \<noteq> INVALID_PAGE_ID"
    and "\<And>f. f < length (pages s) \<Longrightarrow> page_no (page_id (pages s ! f)) \<noteq> INVALID_PAGE_ID \<Longrightarrow>
          map_of (page_table s) (page_id (pages s ! f)) = Some f \<and>
          0 \<le> page_no (page_id (pages s ! f)) \<and>
          page_no (page_id (pages s ! f)) < fd2pageno (disk_manager s) (fd (page_id (pages s ! f)))"
    and "distinct (free_list s)" and "v \<notin> set (free_list s)"
    and "\<And>f. f \<in> set (free_list s) \<Longrightarrow> f < length (pages s) \<and> page_no (page_id (pages s ! f)) = INVALID_PAGE_ID"
    and "\<And>f. f \<in> set (replacer s) \<Longrightarrow> f < length (pages s)"
    and "\<And>f. 0 \<le> fd2pageno (disk_manager s) f"
  shows "victim_inv s v"
  unfolding victim_inv_def using assms by blast

lemma victim_inv_allocate:
  assumes "victim_inv s v"
  shows "victim_inv (s\<lparr>disk_manager := snd (allocate_page f (disk_manager s))\<rparr>) v"
proof -
  note D = victim_invD[OF assms]
  have mono: "\<And>g. fd2pageno (disk_manager s) g \<le> fd2pageno (snd (allocate_page f (disk_manager s))) g"
    by (simp add: allocate_page_def)
  show ?thesis
  proof (rule victim_invI)
    fix g assume g: "g < length (pages (s\<lparr>disk_manager := snd (allocate_page f (disk_manager s))\<rparr>))"
      "page_no (page_id (pages (s\<lparr>disk_manager := snd (allocate_page f (disk_manager s))\<rparr>) ! g)) \<noteq> INVALID_PAGE_ID"
    then have "g < length (pages s)" "page_no (page_id (pages s ! g)) \<noteq> INVALID_PAGE_ID" by simp_all
    from D(3)[OF this] mono[of "fd (page_id (pages s ! g))"]
    show "map_of (page_table (s\<lparr>disk_manager := snd (allocate_page f (disk_manager s))\<rparr>))
        (page_id (pages (s\<lparr>disk_manager := snd (allocate_page f (disk_manager s))\<rparr>) ! g)) = Some g \<and>
       0 \<le> page_no (page_id (pages (s\<lparr>disk_manager := snd (allocate_page f (disk_manager s))\<rparr>) ! g)) \<and>
       page_no (page_id (pages (s\<lparr>disk_manager := snd (allocate_page f (disk_manager s))\<rparr>) ! g))
         < fd2pageno (disk_manager (s\<lparr>disk_manager := snd (allocate_page f (disk_manager s))\<rparr>))
             (fd (page_id (pages (s\<lparr>disk_manager := snd (allocate_page f (disk_manager s))\<rparr>) ! g)))"
      by simp
  next
    fix g show "0 \<le> fd2pageno (disk_manager (s\<lparr>disk_manager := snd (allocate_page f (disk_manager s))\<rparr>)) g"
      using D(8)[of g] mono[of g] by simp
  qed (use D in simp_all)
qed

lemma new_page_inv:
  assumes "bpm_inv s"
  shows "bpm_inv (snd (new_page f s))"
proof (cases "find_victim_page s")
  case (Pair r s1)
  show ?thesis
  proof (cases r)
    case None
    with Pair find_victim_page_none[of s s1] show ?thesis
      using assms by (simp add: new_page_def)
  next
    case (Some v)
    from find_victim_page_inv[OF assms Pair[unfolded Some]]
    have vi: "victim_inv s1 v" by simp
    let ?pno = "fd2pageno (disk_manager s1) f"
    let ?dm = "snd (allocate_page f (disk_manager s1))"
    let ?id = "\<lparr>fd = f, page_no = ?pno\<rparr>"
    let ?s1 = "s1\<lparr>disk_manager := ?dm\<rparr>"
    let ?s2 = "update_page v ?id v ?s1"
    have vi': "victim_inv ?s1 v" using vi by (rule victim_inv_allocate)
    have nn: "0 \<le> ?pno" using vi by (simp add: victim_inv_def)
    have none: "map_of (page_table ?s1) ?id = None"
    proof (cases "map_of (page_table s1) ?id")
      case None
      then show ?thesis by simp
    next
      case (Some g)
      note D = victim_invD[OF vi]
      from D(2)[OF Some] have g: "g < length (pages s1)" "page_id (pages s1 ! g) = ?id"
        "page_no (page_id (pages s1 ! g)) \<noteq> INVALID_PAGE_ID"
        by simp_all
      from D(3)[OF g(1) g(3)]
      have "page_no (page_id (pages s1 ! g)) < fd2pageno (disk_manager s1) (fd (page_id (pages s1 ! g)))"
        by simp
      then show ?thesis unfolding g(2) by simp
    qed
    have i2: "bpm_inv ?s2"
      by (rule update_page_inv[OF vi' _ _ none]) (simp_all add: nn allocate_page_def)
    have e: "snd (new_page f s) =
        ?s2\<lparr>pages := (pages ?s2)[v := (pages ?s2 ! v)\<lparr>is_dirty := True, pin_count := 1\<rparr>],
            replacer := replacer_pin v (replacer ?s2)\<rparr>"
      using Pair Some by (simp add: new_page_def Let_def allocate_page_def)
    show ?thesis unfolding e
      by (rule bpm_inv_frame[OF i2]) (auto simp: nth_list_update_gen replacer_pin_def)
  qed
qed

lemma delete_page_inv:
  assumes "bpm_inv s"
  shows "bpm_inv (snd (delete_page p s))"
proof (cases "map_of (page_table s) p")
  case None
  then show ?thesis using assms by (simp add: delete_page_def)
next
  case (Some fid)
  show ?thesis
  proof (cases "pin_count (pages s ! fid) > 0")
    case True
    then show ?thesis using assms Some by (simp add: delete_page_def)
  next
    case False
    let ?s = "snd (delete_page p s)"
    have tab: "\<And>q f. map_of (page_table s) q = Some f \<Longrightarrow>
         f < length (pages s) \<and> page_id (pages s ! f) = q \<and> page_no q \<noteq> INVALID_PAGE_ID"
      using assms by (simp add: bpm_inv_def)
    have frm: "\<And>f. f < length (pages s) \<Longrightarrow> page_no (page_id (pages s ! f)) \<noteq> INVALID_PAGE_ID \<Longrightarrow>
          map_of (page_table s) (page_id (pages s ! f)) = Some f \<and>
          0 \<le> page_no (page_id (pages s ! f)) \<and>
          page_no (page_id (pages s ! f)) < fd2pageno (disk_manager s) (fd (page_id (pages s ! f)))"
      using assms by (simp add: bpm_inv_def)
    have fl: "distinct (free_list s)"
      "\<And>f. f \<in> set (free_list s) \<Longrightarrow> f < length (pages s) \<and> page_no (page_id (pages s ! f)) = INVALID_PAGE_ID"
      "\<And>f. f \<in> set (replacer s) \<Longrightarrow> f < length (pages s)"
      "\<And>f. 0 \<le> fd2pageno (disk_manager s) f"
      using assms by (simp_all add: bpm_inv_def)
    note F = tab[OF Some]
    have len: "length (pages ?s) = length (pages s)"
      using Some False by (simp add: delete_page_def Let_def)
    have pid: "\<And>f. f < length (pages s) \<Longrightarrow> page_id (pages ?s ! f) =
        (if f = fid then \<lparr>fd = fd p, page_no = INVALID_PAGE_ID\<rparr> else page_id (pages s ! f))"
      using Some False by (simp add: delete_page_def Let_def nth_list_update_gen)
    have tb: "\<And>q. map_of (page_table ?s) q = (if q = p then None else map_of (page_table s) q)"
      using Some False by (simp add: delete_page_def Let_def delete_conv')
    have rest: "free_list ?s = free_list s @ [fid]" "set (replacer ?s) \<subseteq> set (replacer s)"
      "fd2pageno (disk_manager ?s) = fd2pageno (disk_manager s)"
      using Some False by (auto simp: delete_page_def Let_def replacer_pin_def write_page_def)
    have 1: "f < length (pages ?s) \<and> page_id (pages ?s ! f) = q \<and> page_no q \<noteq> INVALID_PAGE_ID"
      if "map_of (page_table ?s) q = Some f" for q f
    proof -
      from that have qp: "q \<noteq> p" and m: "map_of (page_table s) q = Some f"
        by (auto simp: tb split: if_splits)
      from tab[OF m] have f: "f < length (pages s)" "page_id (pages s ! f) = q" "page_no q \<noteq> INVALID_PAGE_ID"
        by simp_all
      have "f \<noteq> fid" using f(2) F qp by auto
      then show ?thesis using f by (simp add: len pid)
    qed
    have 2: "map_of (page_table ?s) (page_id (pages ?s ! f)) = Some f \<and>
          0 \<le> page_no (page_id (pages ?s ! f)) \<and>
          page_no (page_id (pages ?s ! f)) < fd2pageno (disk_manager ?s) (fd (page_id (pages ?s ! f)))"
      if "f < length (pages ?s)" "page_no (page_id (pages ?s ! f)) \<noteq> INVALID_PAGE_ID" for f
    proof -
      from that have f: "f < length (pages s)" by (simp add: len)
      have ne: "f \<noteq> fid" using that(2) f by (auto simp: pid)
      with that f have val: "page_no (page_id (pages s ! f)) \<noteq> INVALID_PAGE_ID" by (simp add: pid)
      note G = frm[OF f val]
      have "page_id (pages s ! f) \<noteq> p" using G Some ne by auto
      then show ?thesis using G f ne by (simp add: tb pid rest)
    qed
    have 3: "distinct (free_list ?s)"
    proof -
      have "fid \<notin> set (free_list s)" using fl(2)[of fid] F by auto
      then show ?thesis using fl(1) by (simp add: rest)
    qed
    have 4: "f < length (pages ?s) \<and> page_no (page_id (pages ?s ! f)) = INVALID_PAGE_ID"
      if "f \<in> set (free_list ?s)" for f
    proof (cases "f = fid")
      case True
      show ?thesis unfolding True using F pid[of fid] len by simp
    next
      case False
      with that have "f \<in> set (free_list s)" by (simp add: rest)
      from fl(2)[OF this] False show ?thesis by (simp add: len pid)
    qed
    have 5: "f < length (pages ?s)" if "f \<in> set (replacer ?s)" for f
      using that rest(2) fl(3)[of f] by (auto simp: len)
    show ?thesis
      unfolding bpm_inv_def
      using 1 2 3 4 5 fl(4) by (simp add: rest)
  qed
qed

lemma apply_op_inv: "bpm_inv s \<Longrightarrow> op_ok s x \<Longrightarrow> bpm_inv (apply_op x s)"
  by (cases x)
    (simp_all add: fetch_page_inv unpin_page_inv flush_page_inv new_page_inv delete_page_inv
      flush_all_pages_inv)

lemma run_ops_inv: "bpm_inv s \<Longrightarrow> ops_ok s xs \<Longrightarrow> bpm_inv (run_ops xs s)"
  unfolding run_ops_def
  by (induction xs arbitrary: s) (simp_all add: apply_op_inv)

definition ex_trace_invalid_fetch :: "bpm_op list" where
  "ex_trace_invalid_fetch =
     [Fetch (ex_pid (-1)), Unpin (ex_pid (-1)) False, Fetch (ex_pid 5), Unpin (ex_pid 5) False,
      Delete (ex_pid (-1))]"

definition ex_trace_unallocated_fetch :: "bpm_op list" where
  "ex_trace_unallocated_fetch = [Fetch (ex_pid 0), New 0]"

definition ex_trace_ok :: "bpm_op list" where
  "ex_trace_ok =
     [Fetch (ex_pid 0), Fetch (ex_pid 1), Unpin (ex_pid 0) True, Fetch (ex_pid 2), New 0,
      Unpin (ex_pid 1) False, Delete (ex_pid 1), Flush (ex_pid 2), FlushAll 0]"

lemmas bpm_defs = run_ops_def fetch_page_def unpin_page_def delete_page_def new_page_def flush_page_def
  flush_all_pages_def find_victim_page_def update_page_def replacer_pin_def replacer_unpin_def
  replacer_victim_def allocate_page_def write_page_def read_page_def ex_pool_fresh_def ex_pid_def
  INVALID_PAGE_ID_def Let_def

lemma fresh_ex: "fresh_pool (ex_pool_fresh (Suc (Suc 0)) k)" "fresh_pool (ex_pool_fresh (Suc 0) k)"
  by (simp_all add: fresh_pool_def ex_pool_fresh_def ex_pid_def)

lemma ex_invalid_state:
  "page_table (run_ops ex_trace_invalid_fetch (ex_pool_fresh (Suc 0) 8)) = [(ex_pid 5, 0)] \<and>
   length (pages (run_ops ex_trace_invalid_fetch (ex_pool_fresh (Suc 0) 8))) = 1 \<and>
   page_id (pages (run_ops ex_trace_invalid_fetch (ex_pool_fresh (Suc 0) 8)) ! 0) = ex_pid (-1)"
  by (simp add: ex_trace_invalid_fetch_def bpm_defs)

lemma ex_unallocated_state:
  "length (pages (run_ops ex_trace_unallocated_fetch (ex_pool_fresh (Suc (Suc 0)) 0))) = 2 \<and>
   page_id (pages (run_ops ex_trace_unallocated_fetch (ex_pool_fresh (Suc (Suc 0)) 0)) ! 0) = ex_pid 0 \<and>
   page_id (pages (run_ops ex_trace_unallocated_fetch (ex_pool_fresh (Suc (Suc 0)) 0)) ! 1) = ex_pid 0"
  by (simp add: ex_trace_unallocated_fetch_def bpm_defs)

text \<open>
  C3 (as amended). Start from a freshly constructed pool whose allocator counters are
  non-negative, and run any sequence of \<^verbatim>\<open>fetch_page\<close>, \<^verbatim>\<open>unpin_page\<close>,
  \<^verbatim>\<open>flush_page\<close>, \<^verbatim>\<open>new_page\<close>, \<^verbatim>\<open>delete_page\<close> and \<^verbatim>\<open>flush_all_pages\<close>
  in which every fetched PageId is an allocated page of its file (its page number is at
  least 0 and below the file's next page number). Then, after every prefix, a valid
  PageId is a key of the page table if and only if some frame records it, the frame the
  page table maps it to is that frame, and no two frames record the same valid PageId.
  Without the condition on the fetched PageIds the property fails: see
  \<open>page_table_consistent_counterexample\<close>.
\<close>

theorem page_table_consistent_reachable:
  assumes "fresh_pool s" and "\<forall>f. 0 \<le> fd2pageno (disk_manager s) f" and "ops_ok s xs"
  shows "page_table_consistent (run_ops xs s)"
  using assms by (intro bpm_inv_consistent run_ops_inv fresh_pool_inv)

theorem page_table_consistent_reachable_witness:
  "fresh_pool (ex_pool_fresh (Suc (Suc 0)) 8) \<and>
   (\<forall>f. 0 \<le> fd2pageno (disk_manager (ex_pool_fresh (Suc (Suc 0)) 8)) f) \<and>
   ops_ok (ex_pool_fresh (Suc (Suc 0)) 8) ex_trace_ok \<and>
   page_table_consistent (run_ops ex_trace_ok (ex_pool_fresh (Suc (Suc 0)) 8))"
proof -
  have a: "\<forall>f. 0 \<le> fd2pageno (disk_manager (ex_pool_fresh (Suc (Suc 0)) 8)) f"
    by (simp add: ex_pool_fresh_def)
  have b: "ops_ok (ex_pool_fresh (Suc (Suc 0)) 8) ex_trace_ok"
    by (simp add: ex_trace_ok_def bpm_defs)
  show ?thesis
    using page_table_consistent_reachable[OF fresh_ex(1) a b] fresh_ex(1) a b by simp
qed

text \<open>
  The claim as stated (every sequence of operations) fails. Fetching the PageId with the
  invalid page number installs it in the page table; when its frame is later reused the
  entry is not erased (\<^verbatim>\<open>update_page\<close> skips the erase for an invalid old PageId), and
  deleting through the stale entry resets a frame that the page table still maps page 5
  to. Fetching a page number the allocator has not handed out yet lets \<^verbatim>\<open>new_page\<close>
  allocate the same PageId into a second frame.
\<close>

theorem page_table_consistent_counterexample:
  "fresh_pool (ex_pool_fresh (Suc 0) 8) \<and>
   \<not> page_table_consistent (run_ops ex_trace_invalid_fetch (ex_pool_fresh (Suc 0) 8)) \<and>
   fresh_pool (ex_pool_fresh (Suc (Suc 0)) 0) \<and>
   \<not> page_table_consistent (run_ops ex_trace_unallocated_fetch (ex_pool_fresh (Suc (Suc 0)) 0))"
proof -
  let ?s = "run_ops ex_trace_invalid_fetch (ex_pool_fresh (Suc 0) 8)"
  let ?t = "run_ops ex_trace_unallocated_fetch (ex_pool_fresh (Suc (Suc 0)) 0)"
  have a: "\<not> page_table_consistent ?s"
  proof
    assume c: "page_table_consistent ?s"
    have l: "length (pages ?s) = 1" "page_id (pages ?s ! 0) = ex_pid (-1)"
      using ex_invalid_state by simp_all
    have "page_no (ex_pid 5) \<noteq> INVALID_PAGE_ID" by (simp add: ex_pid_def INVALID_PAGE_ID_def)
    with c have "(\<exists>f. map_of (page_table ?s) (ex_pid 5) = Some f) \<longleftrightarrow>
         (\<exists>f. f < length (pages ?s) \<and> page_id (pages ?s ! f) = ex_pid 5)"
      unfolding page_table_consistent_def by blast
    then show False using ex_invalid_state l by (simp add: ex_pid_def)
  qed
  have b: "\<not> page_table_consistent ?t"
  proof
    assume c: "page_table_consistent ?t"
    have l: "length (pages ?t) = 2" "page_id (pages ?t ! 0) = ex_pid 0" "page_id (pages ?t ! 1) = ex_pid 0"
      using ex_unallocated_state by simp_all
    have "0 < length (pages ?t) \<and> 1 < length (pages ?t) \<and>
        page_id (pages ?t ! 0) = page_id (pages ?t ! 1) \<and>
        page_no (page_id (pages ?t ! 0)) \<noteq> INVALID_PAGE_ID"
      using l by (simp add: ex_pid_def INVALID_PAGE_ID_def)
    with c have "(0::nat) = 1" unfolding page_table_consistent_def by blast
    then show False by simp
  qed
  show ?thesis using a b fresh_ex by simp
qed

section \<open>B+tree node handle (src/index/ix_index_handle.cpp)\<close>

subsection \<open>Node pages\<close>

text \<open>
  A node page: the page header (leaf flag, parent, leaf links) and the dense arrays of
  keys and rids. The arrays are positional, so the live slots \<open>0 .. num_key - 1\<close> are a
  list of (key, rid) pairs and \<^verbatim>\<open>num_key\<close> is its length. In an internal node the rid's
  page number is the child page number. A zeroed page reads as an internal node with no
  entries. Modelled from the spec: the sentinel page numbers (the header that declares
  them is not part of the source excerpt); only \<open>IX_LEAF_HEADER_PAGE \<noteq> IX_NO_PAGE\<close> matters.
\<close>

record Rid =
  rid_page_no :: int
  rid_slot_no :: int


definition IX_NO_PAGE :: page_id_t where "IX_NO_PAGE = -1"
definition IX_FILE_HDR_PAGE :: page_id_t where "IX_FILE_HDR_PAGE = 0"
definition IX_LEAF_HEADER_PAGE :: page_id_t where "IX_LEAF_HEADER_PAGE = 1"

record 'k IxNode =
  is_leaf :: bool
  parent :: page_id_t
  prev_leaf :: page_id_t
  next_leaf :: page_id_t
  entries :: "('k \<times> Rid) list"

instantiation unit :: zero
begin
definition zero_unit :: unit where "zero_unit = ()"
instance ..
end

instantiation IxNode_ext :: (type, zero) zero
begin
definition zero_IxNode_ext :: "('a, 'b) IxNode_ext" where
  "zero_IxNode_ext = IxNode_ext False 0 0 0 [] 0"
instance ..
end

subsection \<open>Searching a node\<close>

text \<open>
  Modelled from the spec: \<^verbatim>\<open>ix_compare\<close> is not part of the source excerpt. It compares
  two concatenated keys lexicographically over the typed columns and returns a negative
  number, zero or a positive number. A key is a value of a linearly ordered type (the
  lexicographic order of its columns); the column types and lengths it would take from
  the file header are part of that type.
\<close>

definition ix_compare :: "'k::linorder \<Rightarrow> 'k \<Rightarrow> int" where
  "ix_compare a b = (if a < b then - 1 else if b < a then 1 else 0)"

text \<open>
  \<^verbatim>\<open>IxNodeHandle::lower_bound\<close> and \<^verbatim>\<open>upper_bound\<close>: the binary search (the
  \<^verbatim>\<open>while (l < r)\<close> loop) and the linear scan (the \<^verbatim>\<open>for\<close> loop), over the node's key
  array. The loop variables stay within \<open>0 .. num_key\<close> and are naturals.
\<close>

function lower_bound_loop :: "'k::linorder list \<Rightarrow> 'k \<Rightarrow> nat \<Rightarrow> nat \<Rightarrow> nat" where
  "lower_bound_loop ks target l r =
     (if l < r then
        (let mid = (l + r) div 2 in
         if ix_compare (ks ! mid) target < 0 then lower_bound_loop ks target (mid + 1) r
         else lower_bound_loop ks target l mid)
      else l)"
  by pat_completeness auto
termination
  by (relation "measure (\<lambda>(ks, target, l, r). r - l)") auto

function lower_bound_scan :: "'k::linorder list \<Rightarrow> 'k \<Rightarrow> nat \<Rightarrow> nat \<Rightarrow> nat" where
  "lower_bound_scan ks target i n =
     (if i < n then
        (if ix_compare (ks ! i) target \<ge> 0 then i else lower_bound_scan ks target (i + 1) n)
      else n)"
  by pat_completeness auto
termination
  by (relation "measure (\<lambda>(ks, target, i, n). n - i)") auto

function upper_bound_loop :: "'k::linorder list \<Rightarrow> 'k \<Rightarrow> nat \<Rightarrow> nat \<Rightarrow> nat" where
  "upper_bound_loop ks target l r =
     (if l < r then
        (let mid = (l + r) div 2 in
         if ix_compare (ks ! mid) target \<le> 0 then upper_bound_loop ks target (mid + 1) r
         else upper_bound_loop ks target l mid)
      else l)"
  by pat_completeness auto
termination
  by (relation "measure (\<lambda>(ks, target, l, r). r - l)") auto

function upper_bound_scan :: "'k::linorder list \<Rightarrow> 'k \<Rightarrow> nat \<Rightarrow> nat \<Rightarrow> nat" where
  "upper_bound_scan ks target i n =
     (if i < n then
        (if ix_compare (ks ! i) target > 0 then i else upper_bound_scan ks target (i + 1) n)
      else n)"
  by pat_completeness auto
termination
  by (relation "measure (\<lambda>(ks, target, i, n). n - i)") auto

declare lower_bound_loop.simps [simp del] lower_bound_scan.simps [simp del]
  upper_bound_loop.simps [simp del] upper_bound_scan.simps [simp del]

definition key_lower_bound :: "bool \<Rightarrow> 'k::linorder list \<Rightarrow> 'k \<Rightarrow> nat" where
  "key_lower_bound binary_search ks target =
     (if binary_search then lower_bound_loop ks target 0 (length ks)
      else lower_bound_scan ks target 0 (length ks))"

definition key_upper_bound :: "bool \<Rightarrow> 'k::linorder list \<Rightarrow> 'k \<Rightarrow> nat" where
  "key_upper_bound binary_search ks target =
     (if binary_search then upper_bound_loop ks target 0 (length ks)
      else upper_bound_scan ks target 0 (length ks))"

text \<open>Specification: the least index whose key satisfies a predicate, the length if none does.\<close>

definition first_index :: "('k \<Rightarrow> bool) \<Rightarrow> 'k list \<Rightarrow> nat" where
  "first_index P ks = length (takeWhile (\<lambda>k. \<not> P k) ks)"

lemma first_index_least:
  "first_index P ks \<le> length ks \<and>
   (\<forall>i < first_index P ks. \<not> P (ks ! i)) \<and>
   (first_index P ks < length ks \<longrightarrow> P (ks ! first_index P ks))"
  unfolding first_index_def
  by (metis length_takeWhile_le nth_length_takeWhile takeWhile_nth nth_mem set_takeWhileD)

lemma first_index_unique:
  assumes "m \<le> length ks" "\<forall>i < m. \<not> P (ks ! i)" "m < length ks \<longrightarrow> P (ks ! m)"
  shows "first_index P ks = m"
proof -
  note F = first_index_least[of P ks]
  have "\<not> first_index P ks < m"
  proof
    assume l: "first_index P ks < m"
    then have "first_index P ks < length ks" using assms(1) by simp
    with F have "P (ks ! first_index P ks)" by simp
    with assms(2) l show False by simp
  qed
  moreover have "\<not> m < first_index P ks"
  proof
    assume l: "m < first_index P ks"
    then have "m < length ks" using F by simp
    with assms(3) have "P (ks ! m)" by simp
    with F l show False by simp
  qed
  ultimately show ?thesis by simp
qed

lemma ix_compare_lt [simp]: "ix_compare a b < 0 \<longleftrightarrow> a < b"
  and ix_compare_le [simp]: "ix_compare a b \<le> 0 \<longleftrightarrow> a \<le> b"
  and ix_compare_gt [simp]: "0 < ix_compare a b \<longleftrightarrow> b < a"
  and ix_compare_ge [simp]: "0 \<le> ix_compare a b \<longleftrightarrow> b \<le> a"
  and ix_compare_eq [simp]: "ix_compare a b = 0 \<longleftrightarrow> a = b"
  by (auto simp: ix_compare_def)

lemma lower_bound_scan_first:
  "i \<le> n \<Longrightarrow> n = length ks \<Longrightarrow> \<forall>j < i. \<not> target \<le> ks ! j \<Longrightarrow>
   lower_bound_scan ks target i n = first_index (\<lambda>k. target \<le> k) ks"
proof (induction ks target i n rule: lower_bound_scan.induct)
  case (1 ks target i n)
  show ?case
  proof (cases "i < n")
    case True
    show ?thesis
    proof (cases "target \<le> ks ! i")
      case c: True
      have "first_index (\<lambda>k. target \<le> k) ks = i"
        using "1.prems" True c by (intro first_index_unique) auto
      then show ?thesis using True c by (simp add: lower_bound_scan.simps[of ks target i n])
    next
      case c: False
      have "\<forall>j < i + 1. \<not> target \<le> ks ! j" using "1.prems"(3) c by (auto simp: less_Suc_eq)
      with "1.IH"[OF True _ _ "1.prems"(2)] True c show ?thesis
        by (simp add: lower_bound_scan.simps[of ks target i n])
    qed
  next
    case False
    with "1.prems" have e: "i = n" by simp
    have "first_index (\<lambda>k. target \<le> k) ks = n"
      using "1.prems" e by (intro first_index_unique) auto
    then show ?thesis using False by (simp add: lower_bound_scan.simps[of ks target i n])
  qed
qed

lemma upper_bound_scan_first:
  "i \<le> n \<Longrightarrow> n = length ks \<Longrightarrow> \<forall>j < i. \<not> target < ks ! j \<Longrightarrow>
   upper_bound_scan ks target i n = first_index (\<lambda>k. target < k) ks"
proof (induction ks target i n rule: upper_bound_scan.induct)
  case (1 ks target i n)
  show ?case
  proof (cases "i < n")
    case True
    show ?thesis
    proof (cases "target < ks ! i")
      case c: True
      have "first_index (\<lambda>k. target < k) ks = i"
        using "1.prems" True c by (intro first_index_unique) auto
      then show ?thesis using True c by (simp add: upper_bound_scan.simps[of ks target i n])
    next
      case c: False
      have "\<forall>j < i + 1. \<not> target < ks ! j" using "1.prems"(3) c by (auto simp: less_Suc_eq)
      with "1.IH"[OF True _ _ "1.prems"(2)] True c show ?thesis
        by (simp add: upper_bound_scan.simps[of ks target i n])
    qed
  next
    case False
    with "1.prems" have e: "i = n" by simp
    have "first_index (\<lambda>k. target < k) ks = n"
      using "1.prems" e by (intro first_index_unique) auto
    then show ?thesis using False by (simp add: upper_bound_scan.simps[of ks target i n])
  qed
qed

lemma lower_bound_loop_first:
  "sorted ks \<Longrightarrow> l \<le> r \<Longrightarrow> r \<le> length ks \<Longrightarrow> \<forall>j < l. \<not> target \<le> ks ! j \<Longrightarrow>
   \<forall>j. r \<le> j \<and> j < length ks \<longrightarrow> target \<le> ks ! j \<Longrightarrow>
   lower_bound_loop ks target l r = first_index (\<lambda>k. target \<le> k) ks"
proof (induction ks target l r rule: lower_bound_loop.induct)
  case (1 ks target l r)
  show ?case
  proof (cases "l < r")
    case True
    let ?mid = "(l + r) div 2"
    have mid: "l \<le> ?mid" "?mid < r" using True by auto
    show ?thesis
    proof (cases "ks ! ?mid < target")
      case c: True
      have "\<forall>j < ?mid + 1. \<not> target \<le> ks ! j"
      proof (intro allI impI)
        fix j assume "j < ?mid + 1"
        then have "ks ! j \<le> ks ! ?mid"
          using "1.prems"(1,3) mid by (intro sorted_nth_mono) auto
        with c show "\<not> target \<le> ks ! j" by auto
      qed
      with "1.IH"(1)[OF True refl _ "1.prems"(1) _ "1.prems"(3) _ "1.prems"(5)] c mid True
      show ?thesis by (simp add: lower_bound_loop.simps[of ks target l r] Let_def)
    next
      case c: False
      have "\<forall>j. ?mid \<le> j \<and> j < length ks \<longrightarrow> target \<le> ks ! j"
      proof (intro allI impI)
        fix j assume "?mid \<le> j \<and> j < length ks"
        then have "ks ! ?mid \<le> ks ! j"
          using "1.prems"(1) by (intro sorted_nth_mono) auto
        with c show "target \<le> ks ! j" by auto
      qed
      with "1.IH"(2)[OF True refl _ "1.prems"(1) _ _ "1.prems"(4)] c mid True "1.prems"(3)
      show ?thesis by (simp add: lower_bound_loop.simps[of ks target l r] Let_def)
    qed
  next
    case False
    with "1.prems" have e: "l = r" by simp
    have "first_index (\<lambda>k. target \<le> k) ks = l"
      using "1.prems" e by (intro first_index_unique) auto
    then show ?thesis using False by (simp add: lower_bound_loop.simps[of ks target l r])
  qed
qed

lemma upper_bound_loop_first:
  "sorted ks \<Longrightarrow> l \<le> r \<Longrightarrow> r \<le> length ks \<Longrightarrow> \<forall>j < l. \<not> target < ks ! j \<Longrightarrow>
   \<forall>j. r \<le> j \<and> j < length ks \<longrightarrow> target < ks ! j \<Longrightarrow>
   upper_bound_loop ks target l r = first_index (\<lambda>k. target < k) ks"
proof (induction ks target l r rule: upper_bound_loop.induct)
  case (1 ks target l r)
  show ?case
  proof (cases "l < r")
    case True
    let ?mid = "(l + r) div 2"
    have mid: "l \<le> ?mid" "?mid < r" using True by auto
    show ?thesis
    proof (cases "ks ! ?mid \<le> target")
      case c: True
      have "\<forall>j < ?mid + 1. \<not> target < ks ! j"
      proof (intro allI impI)
        fix j assume "j < ?mid + 1"
        then have "ks ! j \<le> ks ! ?mid"
          using "1.prems"(1,3) mid by (intro sorted_nth_mono) auto
        with c show "\<not> target < ks ! j" by auto
      qed
      with "1.IH"(1)[OF True refl _ "1.prems"(1) _ "1.prems"(3) _ "1.prems"(5)] c mid True
      show ?thesis by (simp add: upper_bound_loop.simps[of ks target l r] Let_def)
    next
      case c: False
      have "\<forall>j. ?mid \<le> j \<and> j < length ks \<longrightarrow> target < ks ! j"
      proof (intro allI impI)
        fix j assume "?mid \<le> j \<and> j < length ks"
        then have "ks ! ?mid \<le> ks ! j"
          using "1.prems"(1) by (intro sorted_nth_mono) auto
        with c show "target < ks ! j" by auto
      qed
      with "1.IH"(2)[OF True refl _ "1.prems"(1) _ _ "1.prems"(4)] c mid True "1.prems"(3)
      show ?thesis by (simp add: upper_bound_loop.simps[of ks target l r] Let_def)
    qed
  next
    case False
    with "1.prems" have e: "l = r" by simp
    have "first_index (\<lambda>k. target < k) ks = l"
      using "1.prems" e by (intro first_index_unique) auto
    then show ?thesis using False by (simp add: upper_bound_loop.simps[of ks target l r])
  qed
qed

definition get_size :: "'k IxNode \<Rightarrow> int" where
  "get_size node = int (length (entries node))"

definition get_key :: "'k IxNode \<Rightarrow> int \<Rightarrow> 'k option" where
  "get_key node i = (if 0 \<le> i \<and> i < get_size node then Some (fst (entries node ! nat i)) else None)"

definition get_rid :: "'k IxNode \<Rightarrow> int \<Rightarrow> Rid option" where
  "get_rid node i = (if 0 \<le> i \<and> i < get_size node then Some (snd (entries node ! nat i)) else None)"

definition lower_bound :: "bool \<Rightarrow> ('k::linorder) IxNode \<Rightarrow> 'k \<Rightarrow> int" where
  "lower_bound binary_search node target = int (key_lower_bound binary_search (map fst (entries node)) target)"

definition upper_bound :: "bool \<Rightarrow> ('k::linorder) IxNode \<Rightarrow> 'k \<Rightarrow> int" where
  "upper_bound binary_search node target = int (key_upper_bound binary_search (map fst (entries node)) target)"

definition least_slot :: "('k \<Rightarrow> bool) \<Rightarrow> 'k IxNode \<Rightarrow> int \<Rightarrow> bool" where
  "least_slot P node m \<longleftrightarrow>
     0 \<le> m \<and> m \<le> get_size node \<and>
     (\<forall>i. 0 \<le> i \<and> i < m \<longrightarrow> (\<exists>k. get_key node i = Some k \<and> \<not> P k)) \<and>
     (m < get_size node \<longrightarrow> (\<exists>k. get_key node m = Some k \<and> P k))"

lemma strict_sorted_keys:
  "sorted_wrt (\<lambda>a b. ix_compare a b < 0) ks \<Longrightarrow> sorted (ks :: ('k::linorder) list)"
  by (simp add: strict_sorted_iff sorted_wrt_mono_rel[of ks "(<)" "(\<le>)"])

lemma least_slot_first_index:
  "least_slot P node (int (first_index P (map fst (entries node))))"
proof -
  note F = first_index_least[of P "map fst (entries node)"]
  show ?thesis
    unfolding least_slot_def get_key_def get_size_def
  proof (intro conjI allI impI)
    fix i :: int assume i: "0 \<le> i \<and> i < int (first_index P (map fst (entries node)))"
    then have "nat i < first_index P (map fst (entries node))" by linarith
    with F have "\<not> P (map fst (entries node) ! nat i)" "nat i < length (entries node)" by auto
    then show "\<exists>k. (if 0 \<le> i \<and> i < int (length (entries node)) then Some (fst (entries node ! nat i)) else None) = Some k \<and> \<not> P k"
      using i by auto
  next
    assume "int (first_index P (map fst (entries node))) < int (length (entries node))"
    then show "\<exists>k. (if 0 \<le> int (first_index P (map fst (entries node))) \<and>
            int (first_index P (map fst (entries node))) < int (length (entries node))
         then Some (fst (entries node ! nat (int (first_index P (map fst (entries node)))))) else None) = Some k \<and> P k"
      using F by auto
  qed (use F in auto)
qed

definition ex_leaf :: "int IxNode" where
  "ex_leaf = \<lparr>is_leaf = True, parent = IX_NO_PAGE, prev_leaf = IX_LEAF_HEADER_PAGE,
     next_leaf = IX_LEAF_HEADER_PAGE,
     entries = [(10, \<lparr>rid_page_no = 10, rid_slot_no = 0\<rparr>), (20, \<lparr>rid_page_no = 20, rid_slot_no = 0\<rparr>),
                (30, \<lparr>rid_page_no = 30, rid_slot_no = 0\<rparr>)]\<rparr>"

text \<open>
  C5. For every node whose keys are strictly increasing under \<^verbatim>\<open>ix_compare\<close> and every
  target key: \<^verbatim>\<open>lower_bound\<close> returns the least slot in \<open>[0, num_key]\<close> whose key is
  \<open>\<ge>\<close> the target (\<open>num_key\<close> if there is none), \<^verbatim>\<open>upper_bound\<close> the least slot whose
  key is \<open>>\<close> the target, and the binary search returns the same slot as the linear scan.
\<close>

theorem lower_upper_bound_correct:
  assumes "sorted_wrt (\<lambda>a b. ix_compare a b < 0) (map fst (entries node))"
  shows "least_slot (\<lambda>k. ix_compare k target \<ge> 0) node (lower_bound bs node target) \<and>
         least_slot (\<lambda>k. ix_compare k target > 0) node (upper_bound bs node target) \<and>
         lower_bound True node target = lower_bound False node target \<and>
         upper_bound True node target = upper_bound False node target"
proof -
  let ?ks = "map fst (entries node)"
  have s: "sorted ?ks" using assms by (rule strict_sorted_keys)
  have "lower_bound_loop ?ks target 0 (length ?ks) = first_index (\<lambda>k. target \<le> k) ?ks"
    by (rule lower_bound_loop_first[OF s]) auto
  moreover have "lower_bound_scan ?ks target 0 (length ?ks) = first_index (\<lambda>k. target \<le> k) ?ks"
    by (rule lower_bound_scan_first) auto
  ultimately have lb: "lower_bound b node target = int (first_index (\<lambda>k. target \<le> k) ?ks)" for b
    by (simp add: lower_bound_def key_lower_bound_def)
  have "upper_bound_loop ?ks target 0 (length ?ks) = first_index (\<lambda>k. target < k) ?ks"
    by (rule upper_bound_loop_first[OF s]) auto
  moreover have "upper_bound_scan ?ks target 0 (length ?ks) = first_index (\<lambda>k. target < k) ?ks"
    by (rule upper_bound_scan_first) auto
  ultimately have ub: "upper_bound b node target = int (first_index (\<lambda>k. target < k) ?ks)" for b
    by (simp add: upper_bound_def key_upper_bound_def)
  show ?thesis
    using least_slot_first_index[of "\<lambda>k. target \<le> k" node]
      least_slot_first_index[of "\<lambda>k. target < k" node]
    by (simp add: lb ub)
qed

theorem lower_upper_bound_correct_witness:
  "sorted_wrt (\<lambda>a b. ix_compare a b < 0) (map fst (entries ex_leaf)) \<and>
   lower_bound True ex_leaf 15 = 1 \<and> lower_bound False ex_leaf 15 = 1 \<and>
   upper_bound True ex_leaf 20 = 2 \<and> upper_bound False ex_leaf 20 = 2 \<and>
   least_slot (\<lambda>k. ix_compare k 15 \<ge> 0) ex_leaf 1"
proof -
  have s: "sorted_wrt (\<lambda>a b. ix_compare a b < 0) (map fst (entries ex_leaf))"
    by (simp add: ex_leaf_def)
  have l: "lower_bound True ex_leaf 15 = 1"
    by (simp add: lower_bound_def key_lower_bound_def ex_leaf_def lower_bound_loop.simps)
  have u: "upper_bound True ex_leaf 20 = 2"
    by (simp add: upper_bound_def key_upper_bound_def ex_leaf_def upper_bound_loop.simps)
  show ?thesis
    using lower_upper_bound_correct[OF s, of 15 True] lower_upper_bound_correct[OF s, of 20 True] s l u
    by simp
qed


section \<open>The B+tree index handle\<close>

subsection \<open>Node operations\<close>

text \<open>
  Every C assertion, exception and out-of-range access of the index code is a value of
  \<open>ix_error\<close>: \<^verbatim>\<open>IndexEntryNotFoundError\<close> is the exception of \<^verbatim>\<open>get_rid\<close>, the
  \<open>Assert...\<close> values are the \<^verbatim>\<open>assert\<close>s of \<^verbatim>\<open>fetch_node\<close>, \<^verbatim>\<open>insert_pairs\<close>,
  \<^verbatim>\<open>erase_pair\<close>, \<^verbatim>\<open>internal_lookup\<close> and \<^verbatim>\<open>maintain_parent\<close>, \<open>NullPage\<close> is the use of a
  null page returned by the buffer pool, \<open>OutOfRange\<close> a read or write of a slot outside
  \<open>[0, num_key)\<close>, \<open>ChildNotFound\<close> a \<^verbatim>\<open>find_child\<close> whose argument is not a child, and
  \<open>OutOfFuel\<close> the exhaustion of the iteration bound given to a loop or recursion.
\<close>

datatype ix_error =
    IndexEntryNotFoundError
  | AssertFetchNode
  | AssertInsertPairs
  | AssertErasePair
  | AssertInternalLookup
  | AssertUnpin
  | NullPage
  | OutOfRange
  | ChildNotFound
  | OutOfFuel

definition value_at :: "'k IxNode \<Rightarrow> int \<Rightarrow> page_id_t option" where
  "value_at node i = map_option rid_page_no (get_rid node i)"

definition leaf_lookup :: "bool \<Rightarrow> ('k::linorder) IxNode \<Rightarrow> 'k \<Rightarrow> Rid option" where
  "leaf_lookup bs node key =
     (let pos = lower_bound bs node key in
      if pos = get_size node then None
      else (case get_key node pos of
              None \<Rightarrow> None
            | Some k \<Rightarrow> if ix_compare k key \<noteq> 0 then None else get_rid node pos))"

definition internal_lookup :: "bool \<Rightarrow> ('k::linorder) IxNode \<Rightarrow> 'k \<Rightarrow> ix_error + page_id_t" where
  "internal_lookup bs node key =
     (if is_leaf node then Inl AssertInternalLookup
      else
        (let idx = upper_bound bs node key;
             child_idx = (if idx = 0 then 0 else idx - 1)
         in case value_at node child_idx of None \<Rightarrow> Inl OutOfRange | Some c \<Rightarrow> Inr c))"

definition insert_pairs ::
  "int \<Rightarrow> int \<Rightarrow> ('k \<times> Rid) list \<Rightarrow> 'k IxNode \<Rightarrow> ix_error + 'k IxNode" where
  "insert_pairs max_sz pos new node =
     (if \<not> (pos \<ge> 0 \<and> pos \<le> get_size node) then Inl AssertInsertPairs
      else if \<not> (get_size node + int (length new) \<le> max_sz) then Inl AssertInsertPairs
      else Inr (node\<lparr>entries := take (nat pos) (entries node) @ new @ drop (nat pos) (entries node)\<rparr>))"



definition erase_pair :: "int \<Rightarrow> 'k IxNode \<Rightarrow> ix_error + 'k IxNode" where
  "erase_pair pos node =
     (if \<not> (pos \<ge> 0 \<and> pos < get_size node) then Inl AssertErasePair
      else Inr (node\<lparr>entries := take (nat pos) (entries node) @ drop (nat pos + 1) (entries node)\<rparr>))"



definition set_size :: "int \<Rightarrow> 'k IxNode \<Rightarrow> 'k IxNode" where
  "set_size n node = node\<lparr>entries := take (nat n) (entries node)\<rparr>"



definition remove_and_return_only_child :: "'k IxNode \<Rightarrow> ix_error + (page_id_t \<times> 'k IxNode)" where
  "remove_and_return_only_child node =
     (case value_at node 0 of
        None \<Rightarrow> Inl OutOfRange
      | Some c \<Rightarrow> (case erase_pair 0 node of Inl e \<Rightarrow> Inl e | Inr node' \<Rightarrow> Inr (c, node')))"

subsection \<open>The index handle\<close>

text \<open>
  The file header and the handle. Modelled from the spec: the header declaration is not
  part of the source excerpt; the fields are those the code reads and writes, the per-node
  capacity \<^verbatim>\<open>get_max_size\<close> and the lower bound \<^verbatim>\<open>get_min_size\<close> are header fields
  (parameters of the index). A node handle of the source is a pointer to a frame of the
  buffer pool; here it is the frame's index, so that two handles of one page alias and a
  handle whose frame has been evicted reads the frame's new content, as in the source.
\<close>

record IxFileHdr =
  root_page :: page_id_t
  first_leaf :: page_id_t
  last_leaf :: page_id_t
  num_pages :: int
  max_size :: int
  min_size :: int

record 'k IxIndexHandle =
  file_hdr :: IxFileHdr
  ih_fd :: int
  binary_search :: bool
  buffer_pool_manager :: "'k IxNode BufferPoolManager"

type_synonym ('k, 'a) ix_result = "ix_error + ('a \<times> 'k IxIndexHandle)"

definition ix_bind ::
  "('k, 'a) ix_result \<Rightarrow> ('a \<Rightarrow> 'k IxIndexHandle \<Rightarrow> ('k, 'b) ix_result) \<Rightarrow> ('k, 'b) ix_result" where
  "ix_bind r f = (case r of Inl e \<Rightarrow> Inl e | Inr (x, s) \<Rightarrow> f x s)"

definition node_of :: "'k IxIndexHandle \<Rightarrow> frame_id_t \<Rightarrow> 'k IxNode" where
  "node_of s h = data (pages (buffer_pool_manager s) ! h)"

definition get_page_id :: "'k IxIndexHandle \<Rightarrow> frame_id_t \<Rightarrow> PageId" where
  "get_page_id s h = page_id (pages (buffer_pool_manager s) ! h)"

definition get_page_no :: "'k IxIndexHandle \<Rightarrow> frame_id_t \<Rightarrow> page_id_t" where
  "get_page_no s h = page_no (get_page_id s h)"

definition update_node :: "frame_id_t \<Rightarrow> ('k IxNode \<Rightarrow> 'k IxNode) \<Rightarrow> 'k IxIndexHandle \<Rightarrow> 'k IxIndexHandle" where
  "update_node h f s =
     s\<lparr>buffer_pool_manager := (buffer_pool_manager s)
         \<lparr>pages := (pages (buffer_pool_manager s))
            [h := (pages (buffer_pool_manager s) ! h)\<lparr>data := f (data (pages (buffer_pool_manager s) ! h))\<rparr>]\<rparr>\<rparr>"

definition put_node :: "frame_id_t \<Rightarrow> 'k IxNode \<Rightarrow> 'k IxIndexHandle \<Rightarrow> 'k IxIndexHandle" where
  "put_node h node s = update_node h (\<lambda>_. node) s"

definition unpin :: "frame_id_t \<Rightarrow> bool \<Rightarrow> 'k IxIndexHandle \<Rightarrow> bool \<times> 'k IxIndexHandle" where
  "unpin h dirty s =
     (case unpin_page (get_page_id s h) dirty (buffer_pool_manager s) of
        (ok, b) \<Rightarrow> (ok, s\<lparr>buffer_pool_manager := b\<rparr>))"

text \<open>
  Modelled from the spec: \<^verbatim>\<open>is_empty\<close>, \<^verbatim>\<open>update_root_page_no\<close> and \<^verbatim>\<open>is_root_page\<close> are
  declared in a header that is not part of the source excerpt: the tree is empty when the
  root page number is \<open>IX_NO_PAGE\<close>, a node is the root when it has no parent.
\<close>

definition is_empty :: "'k IxIndexHandle \<Rightarrow> bool" where
  "is_empty s \<longleftrightarrow> root_page (file_hdr s) = IX_NO_PAGE"

definition update_root_page_no :: "page_id_t \<Rightarrow> 'k IxIndexHandle \<Rightarrow> 'k IxIndexHandle" where
  "update_root_page_no p s = s\<lparr>file_hdr := (file_hdr s)\<lparr>root_page := p\<rparr>\<rparr>"


definition fetch_node :: "page_id_t \<Rightarrow> 'k IxIndexHandle \<Rightarrow> ('k, frame_id_t) ix_result" where
  "fetch_node p s =
     (case fetch_page \<lparr>fd = ih_fd s, page_no = p\<rparr> (buffer_pool_manager s) of
        (None, b) \<Rightarrow> Inl AssertFetchNode
      | (Some h, b) \<Rightarrow> Inr (h, s\<lparr>buffer_pool_manager := b\<rparr>))"

definition create_node :: "'k IxIndexHandle \<Rightarrow> ('k, frame_id_t) ix_result" where
  "create_node s =
     (let s1 = s\<lparr>file_hdr := (file_hdr s)\<lparr>num_pages := num_pages (file_hdr s) + 1\<rparr>\<rparr> in
      case new_page (ih_fd s1) (buffer_pool_manager s1) of
        (None, b) \<Rightarrow> Inl NullPage
      | (Some (h, pid), b) \<Rightarrow> Inr (h, s1\<lparr>buffer_pool_manager := b\<rparr>))"

definition maintain_child :: "frame_id_t \<Rightarrow> int \<Rightarrow> 'k IxIndexHandle \<Rightarrow> ('k, unit) ix_result" where
  "maintain_child node child_idx s =
     (if \<not> is_leaf (node_of s node) then
        (case value_at (node_of s node) child_idx of
           None \<Rightarrow> Inl OutOfRange
         | Some child_page_no \<Rightarrow>
             ix_bind (fetch_node child_page_no s) (\<lambda>child s1.
               let s2 = update_node child (\<lambda>n. n\<lparr>parent := get_page_no s1 node\<rparr>) s1
               in Inr ((), snd (unpin child True s2))))
      else Inr ((), s))"

fun maintain_children :: "frame_id_t \<Rightarrow> int list \<Rightarrow> 'k IxIndexHandle \<Rightarrow> ('k, unit) ix_result" where
  "maintain_children node [] s = Inr ((), s)"
| "maintain_children node (i # is) s =
     ix_bind (maintain_child node i s) (\<lambda>_ s1. maintain_children node is s1)"



fun find_leaf_loop :: "nat \<Rightarrow> ('k::linorder) \<Rightarrow> frame_id_t \<Rightarrow> 'k IxIndexHandle \<Rightarrow> ('k, frame_id_t) ix_result" where
  "find_leaf_loop 0 key node s = Inl OutOfFuel"
| "find_leaf_loop (Suc n) key node s =
     (if \<not> is_leaf (node_of s node) then
        (case internal_lookup (binary_search s) (node_of s node) key of
           Inl e \<Rightarrow> Inl e
         | Inr child \<Rightarrow>
             ix_bind (fetch_node child (snd (unpin node False s))) (\<lambda>node' s1.
               find_leaf_loop n key node' s1))
      else Inr (node, s))"

definition find_leaf_page ::
  "nat \<Rightarrow> ('k::linorder) \<Rightarrow> 'k IxIndexHandle \<Rightarrow> ('k, frame_id_t option) ix_result" where
  "find_leaf_page fuel key s =
     (if is_empty s then Inr (None, s)
      else ix_bind (fetch_node (root_page (file_hdr s)) s) (\<lambda>node s1.
             ix_bind (find_leaf_loop fuel key node s1) (\<lambda>leaf s2. Inr (Some leaf, s2))))"

function get_value_scan :: "('k::linorder) IxNode \<Rightarrow> 'k \<Rightarrow> int \<Rightarrow> Rid list" where
  "get_value_scan leaf key pos =
     (if pos < get_size leaf \<and> map_option (\<lambda>k. ix_compare k key) (get_key leaf pos) = Some 0
      then (case get_rid leaf pos of Some r \<Rightarrow> [r] | None \<Rightarrow> []) @ get_value_scan leaf key (pos + 1)
      else [])"
  by pat_completeness auto
termination
  by (relation "measure (\<lambda>(leaf, key, pos). nat (get_size leaf - pos))") auto

declare get_value_scan.simps [simp del]

definition get_value ::
  "nat \<Rightarrow> ('k::linorder) \<Rightarrow> 'k IxIndexHandle \<Rightarrow> ('k, bool \<times> Rid list) ix_result" where
  "get_value fuel key s =
     ix_bind (find_leaf_page fuel key s) (\<lambda>leaf s1.
       case leaf of
         None \<Rightarrow> Inr ((False, []), s1)
       | Some leaf \<Rightarrow>
           (let res = get_value_scan (node_of s1 leaf) key (lower_bound (binary_search s1) (node_of s1 leaf) key)
            in Inr ((res \<noteq> [], res), snd (unpin leaf False s1))))"


definition set_last_leaf :: "page_id_t \<Rightarrow> 'k IxIndexHandle \<Rightarrow> 'k IxIndexHandle" where
  "set_last_leaf p s = s\<lparr>file_hdr := (file_hdr s)\<lparr>last_leaf := p\<rparr>\<rparr>"

definition set_first_leaf :: "page_id_t \<Rightarrow> 'k IxIndexHandle \<Rightarrow> 'k IxIndexHandle" where
  "set_first_leaf p s = s\<lparr>file_hdr := (file_hdr s)\<lparr>first_leaf := p\<rparr>\<rparr>"

definition split :: "frame_id_t \<Rightarrow> 'k IxIndexHandle \<Rightarrow> ('k, frame_id_t) ix_result" where
  "split node s =
     ix_bind (create_node s) (\<lambda>new_node s1.
       let s2 = update_node new_node (\<lambda>n. n\<lparr>is_leaf := is_leaf (node_of s1 node),
                  parent := parent (node_of s1 node), entries := [],
                  prev_leaf := IX_NO_PAGE, next_leaf := IX_NO_PAGE\<rparr>) s1;
           total = get_size (node_of s2 node);
           mid = total div 2;
           move_num = total - mid;
           moved = take (nat move_num) (drop (nat mid) (entries (node_of s2 node)))
       in case insert_pairs (max_size (file_hdr s2)) 0 moved (node_of s2 new_node) of
            Inl e \<Rightarrow> Inl e
          | Inr nn \<Rightarrow>
             (let s3 = put_node new_node nn s2;
                  s4 = update_node node (set_size mid) s3
              in if is_leaf (node_of s4 new_node) then
                   (let s5 = update_node new_node (\<lambda>n. n\<lparr>prev_leaf := get_page_no s4 node\<rparr>) s4;
                        s6 = update_node new_node (\<lambda>n. n\<lparr>next_leaf := next_leaf (node_of s5 node)\<rparr>) s5;
                        s7 = update_node node (\<lambda>n. n\<lparr>next_leaf := get_page_no s6 new_node\<rparr>) s6
                    in ix_bind
                         (if next_leaf (node_of s7 new_node) \<noteq> IX_NO_PAGE then
                            ix_bind (fetch_node (next_leaf (node_of s7 new_node)) s7) (\<lambda>next s8.
                              Inr ((), snd (unpin next True
                                (update_node next (\<lambda>n. n\<lparr>prev_leaf := get_page_no s8 new_node\<rparr>) s8))))
                          else Inr ((), s7))
                         (\<lambda>_ s9.
                            Inr (new_node,
                              if last_leaf (file_hdr s9) = get_page_no s9 node \<or>
                                 next_leaf (node_of s9 new_node) = IX_LEAF_HEADER_PAGE
                              then set_last_leaf (get_page_no s9 new_node) s9 else s9)))
                 else
                   ix_bind (maintain_children new_node [0..get_size (node_of s4 new_node) - 1] s4)
                     (\<lambda>_ s5. Inr (new_node, s5))))"



definition adjust_root :: "frame_id_t \<Rightarrow> 'k IxIndexHandle \<Rightarrow> ('k, bool) ix_result" where
  "adjust_root old_root_node s =
     (if \<not> is_leaf (node_of s old_root_node) \<and> get_size (node_of s old_root_node) = 1 then
        (case remove_and_return_only_child (node_of s old_root_node) of
           Inl e \<Rightarrow> Inl e
         | Inr (child_page_no, root') \<Rightarrow>
            (let s1 = put_node old_root_node root' s;
                 s2 = update_root_page_no child_page_no s1
             in ix_bind (fetch_node child_page_no s2) (\<lambda>child s3.
                  Inr (True, snd (unpin child True
                    (update_node child (\<lambda>n. n\<lparr>parent := IX_NO_PAGE\<rparr>) s3))))))
      else if is_leaf (node_of s old_root_node) \<and> get_size (node_of s old_root_node) = 0 then
        Inr (True, set_last_leaf IX_NO_PAGE (set_first_leaf IX_NO_PAGE (update_root_page_no IX_NO_PAGE s)))
      else Inr (False, s))"







section \<open>The buffer pool as a cache of the disk\<close>

text \<open>
  The content of a page as the clients of the pool see it: the image in its frame when it
  is resident, the image on disk otherwise. \<open>pool_inv\<close> adds to \<open>bpm_inv\<close> the pin
  discipline (free and evictable frames are unpinned, unpinned frames are free or
  evictable) and that a clean unpinned frame equals the disk.
\<close>

definition page_content :: "'d BufferPoolManager \<Rightarrow> PageId \<Rightarrow> 'd" where
  "page_content b pid =
     (case map_of (page_table b) pid of
        Some f \<Rightarrow> data (pages b ! f)
      | None \<Rightarrow> disk_pages (disk_manager b) pid)"

definition page_pin_count :: "'d BufferPoolManager \<Rightarrow> PageId \<Rightarrow> int" where
  "page_pin_count b pid =
     (case map_of (page_table b) pid of
        Some f \<Rightarrow> pin_count (pages b ! f)
      | None \<Rightarrow> 0)"

definition page_dirty :: "'d BufferPoolManager \<Rightarrow> PageId \<Rightarrow> bool" where
  "page_dirty b pid =
     (case map_of (page_table b) pid of
        Some f \<Rightarrow> is_dirty (pages b ! f)
      | None \<Rightarrow> False)"

definition pool_inv :: "'d BufferPoolManager \<Rightarrow> bool" where
  "pool_inv b \<longleftrightarrow>
     bpm_inv b \<and>
     (\<forall>f. f < length (pages b) \<longrightarrow> 0 \<le> pin_count (pages b ! f)) \<and>
     (\<forall>f \<in> set (free_list b). pin_count (pages b ! f) = 0) \<and>
     (\<forall>f \<in> set (replacer b). pin_count (pages b ! f) = 0) \<and>
     (\<forall>f. f < length (pages b) \<and> pin_count (pages b ! f) = 0 \<longrightarrow>
        f \<in> set (free_list b) \<or> f \<in> set (replacer b)) \<and>
     (\<forall>f. f < length (pages b) \<and> page_no (page_id (pages b ! f)) \<noteq> INVALID_PAGE_ID \<and>
        \<not> is_dirty (pages b ! f) \<and> pin_count (pages b ! f) = 0 \<longrightarrow>
        data (pages b ! f) = disk_pages (disk_manager b) (page_id (pages b ! f))) \<and>
     (\<forall>f. f < length (pages b) \<and> page_no (page_id (pages b ! f)) = INVALID_PAGE_ID \<longrightarrow>
        f \<in> set (free_list b))"

lemma pool_invD:
  assumes "pool_inv b"
  shows "bpm_inv b"
    and "\<And>f. f < length (pages b) \<Longrightarrow> 0 \<le> pin_count (pages b ! f)"
    and "\<And>f. f \<in> set (free_list b) \<Longrightarrow> pin_count (pages b ! f) = 0"
    and "\<And>f. f \<in> set (replacer b) \<Longrightarrow> pin_count (pages b ! f) = 0"
    and "\<And>f. f < length (pages b) \<Longrightarrow> pin_count (pages b ! f) = 0 \<Longrightarrow>
           f \<in> set (free_list b) \<or> f \<in> set (replacer b)"
    and "\<And>f. f < length (pages b) \<Longrightarrow> page_no (page_id (pages b ! f)) \<noteq> INVALID_PAGE_ID \<Longrightarrow>
        \<not> is_dirty (pages b ! f) \<Longrightarrow> pin_count (pages b ! f) = 0 \<Longrightarrow>
        data (pages b ! f) = disk_pages (disk_manager b) (page_id (pages b ! f))"
    and "\<And>f. f < length (pages b) \<Longrightarrow> page_no (page_id (pages b ! f)) = INVALID_PAGE_ID \<Longrightarrow>
        f \<in> set (free_list b)"
  using assms by (simp_all add: pool_inv_def)

lemma bpm_invD:
  assumes "bpm_inv s"
  shows "\<And>q f. map_of (page_table s) q = Some f \<Longrightarrow>
         f < length (pages s) \<and> page_id (pages s ! f) = q \<and> page_no q \<noteq> INVALID_PAGE_ID"
    and "\<And>f. f < length (pages s) \<Longrightarrow> page_no (page_id (pages s ! f)) \<noteq> INVALID_PAGE_ID \<Longrightarrow>
          map_of (page_table s) (page_id (pages s ! f)) = Some f \<and>
          0 \<le> page_no (page_id (pages s ! f)) \<and>
          page_no (page_id (pages s ! f)) < fd2pageno (disk_manager s) (fd (page_id (pages s ! f)))"
    and "distinct (free_list s)"
    and "\<And>f. f \<in> set (free_list s) \<Longrightarrow> f < length (pages s) \<and> page_no (page_id (pages s ! f)) = INVALID_PAGE_ID"
    and "\<And>f. f \<in> set (replacer s) \<Longrightarrow> f < length (pages s)"
    and "\<And>f. 0 \<le> fd2pageno (disk_manager s) f"
  using assms by (simp_all add: bpm_inv_def)

text \<open>The effect of a fetch that finds the page resident.\<close>

lemma fetch_page_hit:
  assumes "map_of (page_table b) p = Some f"
  shows "fetch_page p b =
     (Some f, b\<lparr>pages := (pages b)[f := (pages b ! f)\<lparr>pin_count := pin_count (pages b ! f) + 1\<rparr>],
               replacer := replacer_pin f (replacer b)\<rparr>)"
  using assms by (simp add: fetch_page_def)

lemma pool_inv_hit:
  assumes "pool_inv b" "map_of (page_table b) p = Some f"
  shows "pool_inv (b\<lparr>pages := (pages b)[f := (pages b ! f)\<lparr>pin_count := pin_count (pages b ! f) + 1\<rparr>],
               replacer := replacer_pin f (replacer b)\<rparr>)"
    (is "pool_inv ?b")
proof -
  note P = pool_invD[OF assms(1)]
  note B = bpm_invD[OF P(1)]
  from B(1)[OF assms(2)] have f: "f < length (pages b)" by simp
  have i: "bpm_inv ?b"
    by (rule bpm_inv_frame[OF P(1)]) (auto simp: nth_list_update_gen replacer_pin_def)
  have pc: "\<And>g. pin_count (pages ?b ! g) = (if g = f then pin_count (pages b ! f) + 1 else pin_count (pages b ! g))"
    using f by (simp add: nth_list_update_gen)
  have oth: "\<And>g. g \<noteq> f \<Longrightarrow> pages ?b ! g = pages b ! g" by simp
  have ff: "page_id (pages ?b ! f) = page_id (pages b ! f)" "data (pages ?b ! f) = data (pages b ! f)"
    "is_dirty (pages ?b ! f) = is_dirty (pages b ! f)"
    using f by simp_all
  have fl: "f \<notin> set (free_list b)" using B(4)[of f] B(1)[OF assms(2)] by auto
  show ?thesis
    unfolding pool_inv_def
  proof (intro conjI allI impI ballI)
    show "bpm_inv ?b" by (rule i)
  next
    fix g assume "g < length (pages ?b)"
    then show "0 \<le> pin_count (pages ?b ! g)" using P(2)[of g] P(2)[of f] f by (auto simp: nth_list_update_gen)
  next
    fix g assume "g \<in> set (free_list ?b)"
    then show "pin_count (pages ?b ! g) = 0" using P(3)[of g] fl by (auto simp: nth_list_update_gen)
  next
    fix g assume "g \<in> set (replacer ?b)"
    then show "pin_count (pages ?b ! g) = 0" using P(4)[of g] by (auto simp: nth_list_update_gen replacer_pin_def)
  next
    fix g assume "g < length (pages ?b) \<and> pin_count (pages ?b ! g) = 0"
    then show "g \<in> set (free_list ?b) \<or> g \<in> set (replacer ?b)"
      using P(5)[of g] P(2)[of f] f by (auto simp: nth_list_update_gen replacer_pin_def split: if_splits)
  next
    fix g assume a: "g < length (pages ?b) \<and> page_no (page_id (pages ?b ! g)) \<noteq> INVALID_PAGE_ID \<and>
        \<not> is_dirty (pages ?b ! g) \<and> pin_count (pages ?b ! g) = 0"
    then have "g \<noteq> f" using P(2)[of f] f by (auto simp: nth_list_update_gen)
    then show "data (pages ?b ! g) = disk_pages (disk_manager ?b) (page_id (pages ?b ! g))"
      using a P(6)[of g] by (auto simp: nth_list_update_gen)
  next
    fix g assume "g < length (pages ?b) \<and> page_no (page_id (pages ?b ! g)) = INVALID_PAGE_ID"
    then show "g \<in> set (free_list ?b)"
      using P(7)[of g] by (auto simp: nth_list_update_gen split: if_splits)
  qed
qed

lemma update_page_disk:
  "disk_pages (disk_manager (update_page v p w s)) =
     (if is_dirty (pages s ! v) \<and> page_no (page_id (pages s ! v)) \<noteq> INVALID_PAGE_ID
      then (disk_pages (disk_manager s))(page_id (pages s ! v) := data (pages s ! v))
      else disk_pages (disk_manager s))"
  by (simp add: update_page_def Let_def write_page_def)

lemma find_victim_page_some:
  assumes "pool_inv b" "find_victim_page b = (Some v, b1)"
  shows "v < length (pages b)" "pin_count (pages b ! v) = 0"
    "pages b1 = pages b" "page_table b1 = page_table b" "disk_manager b1 = disk_manager b"
    "set (free_list b1) = set (free_list b) - {v}" "distinct (free_list b1)"
    "set (replacer b1) \<subseteq> set (replacer b)"
    "\<And>g. g \<noteq> v \<Longrightarrow> g \<in> set (replacer b) \<Longrightarrow> g \<in> set (replacer b1)"
proof -
  note P = pool_invD[OF assms(1)]
  note B = bpm_invD[OF P(1)]
  show "v < length (pages b)" "pin_count (pages b ! v) = 0"
    "pages b1 = pages b" "page_table b1 = page_table b" "disk_manager b1 = disk_manager b"
    "set (free_list b1) = set (free_list b) - {v}" "distinct (free_list b1)"
    "set (replacer b1) \<subseteq> set (replacer b)"
    "\<And>g. g \<noteq> v \<Longrightarrow> g \<in> set (replacer b) \<Longrightarrow> g \<in> set (replacer b1)"
    using assms(2) B(3) B(4)[of v] B(5)[of v] P(3)[of v] P(4)[of v]
    by (auto simp: find_victim_page_def replacer_victim_def split: list.splits)
qed

lemma fetch_page_miss_state:
  assumes "pool_inv b" "map_of (page_table b) p = None" "fetch_page p b = (Some v, b')"
  shows "v < length (pages b)" "pin_count (pages b ! v) = 0"
    "length (pages b') = length (pages b)"
    "\<And>g. g \<noteq> v \<Longrightarrow> pages b' ! g = pages b ! g"
    "page_id (pages b' ! v) = p" "data (pages b' ! v) = disk_pages (disk_manager b') p"
    "is_dirty (pages b' ! v) = False" "pin_count (pages b' ! v) = 1"
    "map_of (page_table b') =
       ((if page_no (page_id (pages b ! v)) \<noteq> INVALID_PAGE_ID
         then (map_of (page_table b))(page_id (pages b ! v) := None) else map_of (page_table b))(p \<mapsto> v))"
    "set (free_list b') = set (free_list b) - {v}" "distinct (free_list b')"
    "set (replacer b') = set (replacer b) - {v}"
    "disk_pages (disk_manager b') =
       (if is_dirty (pages b ! v) \<and> page_no (page_id (pages b ! v)) \<noteq> INVALID_PAGE_ID
        then (disk_pages (disk_manager b))(page_id (pages b ! v) := data (pages b ! v))
        else disk_pages (disk_manager b))"
    "fd2pageno (disk_manager b') = fd2pageno (disk_manager b)"
proof -
  obtain b1 where fv: "find_victim_page b = (Some v, b1)"
    using assms(2,3) by (auto simp: fetch_page_def Let_def split: prod.splits option.splits)
  note V = find_victim_page_some[OF assms(1) fv]
  let ?b2 = "update_page v p v b1"
  have e: "b' = ?b2\<lparr>pages := (pages ?b2)[v := (pages ?b2 ! v)\<lparr>data := read_page p (disk_manager ?b2), pin_count := 1\<rparr>],
            replacer := replacer_pin v (replacer ?b2)\<rparr>"
    using assms(2,3) fv by (simp add: fetch_page_def Let_def)
  have v1: "v < length (pages b1)" using V by simp
  note U = update_page_pages[OF v1, of p] update_page_table[of v p v b1] update_page_rest[of v p v b1]
    update_page_disk[of v p v b1]
  show "v < length (pages b)" "pin_count (pages b ! v) = 0" by (rule V)+
  show "length (pages b') = length (pages b)" unfolding e using U(1) V(3) by simp
  show "\<And>g. g \<noteq> v \<Longrightarrow> pages b' ! g = pages b ! g" unfolding e using U(1) V(3) by simp
  show "page_id (pages b' ! v) = p" unfolding e using U(1) V(3) v1 by simp
  show "data (pages b' ! v) = disk_pages (disk_manager b') p"
    unfolding e using U(1) V(3) v1 by (simp add: read_page_def)
  show "is_dirty (pages b' ! v) = False" unfolding e using U(1) V(3) v1 by simp
  show "pin_count (pages b' ! v) = 1" unfolding e using U(1) V(3) v1 by simp
  show "map_of (page_table b') =
       ((if page_no (page_id (pages b ! v)) \<noteq> INVALID_PAGE_ID
         then (map_of (page_table b))(page_id (pages b ! v) := None) else map_of (page_table b))(p \<mapsto> v))"
    unfolding e using U(2) V(3,4) by simp
  show "set (free_list b') = set (free_list b) - {v}" "distinct (free_list b')"
    unfolding e using U(3) V(6,7) by simp_all
  show "set (replacer b') = set (replacer b) - {v}"
    unfolding e using U(3) V(8,9) by (auto simp: replacer_pin_def)
  show "disk_pages (disk_manager b') =
       (if is_dirty (pages b ! v) \<and> page_no (page_id (pages b ! v)) \<noteq> INVALID_PAGE_ID
        then (disk_pages (disk_manager b))(page_id (pages b ! v) := data (pages b ! v))
        else disk_pages (disk_manager b))"
    unfolding e using U(4) V(3,5) by simp
  show "fd2pageno (disk_manager b') = fd2pageno (disk_manager b)"
    unfolding e using U(3) V(5) by simp
qed

lemma pool_inv_miss:
  assumes "pool_inv b" "map_of (page_table b) p = None" "fetch_page p b = (Some v, b')"
    "0 \<le> page_no p" "page_no p < fd2pageno (disk_manager b) (fd p)"
  shows "pool_inv b'"
proof -
  note P = pool_invD[OF assms(1)]
  note B = bpm_invD[OF P(1)]
  note M = fetch_page_miss_state[OF assms(1-3)]
  let ?old = "page_id (pages b ! v)"
  have i: "bpm_inv b'" using fetch_page_inv[OF P(1) assms(4,5)] assms(3) by simp
  have old_tab: "page_no ?old \<noteq> INVALID_PAGE_ID \<Longrightarrow> map_of (page_table b) ?old = Some v"
    using B(2)[OF M(1)] by simp
  have uniq: "g \<noteq> v \<Longrightarrow> g < length (pages b) \<Longrightarrow> page_no (page_id (pages b ! g)) \<noteq> INVALID_PAGE_ID \<Longrightarrow>
      page_id (pages b ! g) \<noteq> ?old" for g
    using B(2)[of g] old_tab by auto
  show ?thesis
    unfolding pool_inv_def
  proof (intro conjI allI impI ballI)
    show "bpm_inv b'" by (rule i)
  next
    fix g assume "g < length (pages b')"
    then show "0 \<le> pin_count (pages b' ! g)"
      using P(2)[of g] M(3,4,8) by (cases "g = v") auto
  next
    fix g assume "g \<in> set (free_list b')"
    then show "pin_count (pages b' ! g) = 0" using P(3)[of g] M(4,10) by auto
  next
    fix g assume "g \<in> set (replacer b')"
    then show "pin_count (pages b' ! g) = 0" using P(4)[of g] M(4,12) by auto
  next
    fix g assume "g < length (pages b') \<and> pin_count (pages b' ! g) = 0"
    then show "g \<in> set (free_list b') \<or> g \<in> set (replacer b')"
      using P(5)[of g] M(3,4,8,10,12) by (cases "g = v") auto
  next
    fix g assume a: "g < length (pages b') \<and> page_no (page_id (pages b' ! g)) \<noteq> INVALID_PAGE_ID \<and>
        \<not> is_dirty (pages b' ! g) \<and> pin_count (pages b' ! g) = 0"
    then have gv: "g \<noteq> v" using M(8) by auto
    with a have g: "g < length (pages b)" "page_no (page_id (pages b ! g)) \<noteq> INVALID_PAGE_ID"
      "\<not> is_dirty (pages b ! g)" "pin_count (pages b ! g) = 0"
      using M(3,4) by auto
    have "data (pages b ! g) = disk_pages (disk_manager b) (page_id (pages b ! g))"
      using P(6)[OF g] .
    moreover have "disk_pages (disk_manager b') (page_id (pages b ! g)) =
        disk_pages (disk_manager b) (page_id (pages b ! g))"
      using uniq[OF gv g(1,2)] by (simp add: M(13))
    ultimately show "data (pages b' ! g) = disk_pages (disk_manager b') (page_id (pages b' ! g))"
      using M(4)[OF gv] by simp
  next
    fix g assume a: "g < length (pages b') \<and> page_no (page_id (pages b' ! g)) = INVALID_PAGE_ID"
    have "page_no p \<noteq> INVALID_PAGE_ID" using assms(4) by (simp add: INVALID_PAGE_ID_def)
    with a have gv: "g \<noteq> v" using M(5) by auto
    with a show "g \<in> set (free_list b')" using P(7)[of g] M(3,4,10) by auto
  qed
qed

lemma fetch_page_spec:
  assumes "pool_inv b" "0 \<le> page_no p" "page_no p < fd2pageno (disk_manager b) (fd p)"
    "fetch_page p b = (Some f, b')"
  shows "pool_inv b'" "f < length (pages b')" "length (pages b') = length (pages b)"
    "page_id (pages b' ! f) = p" "data (pages b' ! f) = page_content b p"
    "pin_count (pages b' ! f) = page_pin_count b p + 1"
    "\<And>q. page_content b' q = page_content b q"
    "\<And>q. page_pin_count b' q = page_pin_count b q + (if q = p then 1 else 0)"
    "fd2pageno (disk_manager b') = fd2pageno (disk_manager b)"
    "\<And>g. g < length (pages b) \<Longrightarrow> 0 < pin_count (pages b ! g) \<Longrightarrow>
        page_id (pages b' ! g) = page_id (pages b ! g) \<and> data (pages b' ! g) = data (pages b ! g) \<and>
        is_dirty (pages b' ! g) = is_dirty (pages b ! g) \<and>
        pin_count (pages b ! g) \<le> pin_count (pages b' ! g)"
    "0 < page_pin_count b p \<or> is_dirty (pages b' ! f) \<or>
       data (pages b' ! f) = disk_pages (disk_manager b') p"
    "is_dirty (pages b' ! f) = page_dirty b p"
proof -
  note P = pool_invD[OF assms(1)]
  note B = bpm_invD[OF P(1)]
  have vp: "page_no p \<noteq> INVALID_PAGE_ID" using assms(2) by (simp add: INVALID_PAGE_ID_def)
  have all: "pool_inv b' \<and> f < length (pages b') \<and> length (pages b') = length (pages b) \<and>
    page_id (pages b' ! f) = p \<and> data (pages b' ! f) = page_content b p \<and>
    pin_count (pages b' ! f) = page_pin_count b p + 1 \<and>
    (\<forall>q. page_content b' q = page_content b q) \<and>
    (\<forall>q. page_pin_count b' q = page_pin_count b q + (if q = p then 1 else 0)) \<and>
    fd2pageno (disk_manager b') = fd2pageno (disk_manager b) \<and>
    (\<forall>g. g < length (pages b) \<longrightarrow> 0 < pin_count (pages b ! g) \<longrightarrow>
        page_id (pages b' ! g) = page_id (pages b ! g) \<and> data (pages b' ! g) = data (pages b ! g) \<and>
        is_dirty (pages b' ! g) = is_dirty (pages b ! g) \<and>
        pin_count (pages b ! g) \<le> pin_count (pages b' ! g)) \<and>
    (0 < page_pin_count b p \<or> is_dirty (pages b' ! f) \<or>
       data (pages b' ! f) = disk_pages (disk_manager b') p) \<and>
    is_dirty (pages b' ! f) = page_dirty b p"
  proof (cases "map_of (page_table b) p")
    case (Some f0)
    from fetch_page_hit[OF Some] assms(4) have ff: "f0 = f"
      and e: "b' = b\<lparr>pages := (pages b)[f := (pages b ! f)\<lparr>pin_count := pin_count (pages b ! f) + 1\<rparr>],
               replacer := replacer_pin f (replacer b)\<rparr>"
      by simp_all
    note S = Some[unfolded ff]
    from B(1)[OF S] have f: "f < length (pages b)" "page_id (pages b ! f) = p" by simp_all
    have pi: "pool_inv b'" unfolding e by (rule pool_inv_hit[OF assms(1) S])
    have cont: "page_content b' q = page_content b q" for q
    proof (cases "map_of (page_table b) q")
      case None
      then show ?thesis unfolding e by (simp add: page_content_def)
    next
      case s: (Some g)
      then show ?thesis unfolding e by (simp add: page_content_def nth_list_update_gen)
    qed
    have pins: "page_pin_count b' q = page_pin_count b q + (if q = p then 1 else 0)" for q
    proof (cases "map_of (page_table b) q")
      case None
      then show ?thesis unfolding e using S by (auto simp: page_pin_count_def)
    next
      case s: (Some g)
      from B(1)[OF s] have "page_id (pages b ! g) = q" by simp
      then have "g = f \<longleftrightarrow> q = p" using f(2) S s by (metis option.inject)
      then show ?thesis unfolding e using s S f(1) by (auto simp: page_pin_count_def nth_list_update_gen)
    qed
    have clean: "0 < page_pin_count b p \<or> is_dirty (pages b' ! f) \<or>
       data (pages b' ! f) = disk_pages (disk_manager b') p"
    proof (cases "pin_count (pages b ! f) = 0")
      case True
      have "is_dirty (pages b ! f) \<or> data (pages b ! f) = disk_pages (disk_manager b) p"
        using P(6)[OF f(1)] True f(2) vp by auto
      then show ?thesis unfolding e using f(1) by simp
    next
      case False
      then have "0 < page_pin_count b p" using P(2)[OF f(1)] S by (simp add: page_pin_count_def)
      then show ?thesis by simp
    qed
    have a1: "f < length (pages b')" "length (pages b') = length (pages b)"
      "page_id (pages b' ! f) = p" "data (pages b' ! f) = page_content b p"
      "pin_count (pages b' ! f) = page_pin_count b p + 1"
      "fd2pageno (disk_manager b') = fd2pageno (disk_manager b)"
      unfolding e using f S by (simp_all add: page_content_def page_pin_count_def)
    have a2: "is_dirty (pages b' ! f) = page_dirty b p"
      unfolding e using f S by (simp add: page_dirty_def)
    have held: "page_id (pages b' ! g) = page_id (pages b ! g) \<and> data (pages b' ! g) = data (pages b ! g) \<and>
        is_dirty (pages b' ! g) = is_dirty (pages b ! g) \<and>
        pin_count (pages b ! g) \<le> pin_count (pages b' ! g)"
      if "g < length (pages b)" for g
      unfolding e using that by (simp add: nth_list_update_gen)
    show ?thesis
      apply (intro conjI allI impI)
      using pi a1 a2 cont pins clean held by blast+
  next
    case None
    note M = fetch_page_miss_state[OF assms(1) None assms(4)]
    let ?old = "page_id (pages b ! f)"
    have pi: "pool_inv b'" by (rule pool_inv_miss[OF assms(1) None assms(4) assms(2,3)])
    have old_tab: "page_no ?old \<noteq> INVALID_PAGE_ID \<Longrightarrow> map_of (page_table b) ?old = Some f"
      using B(2)[OF M(1)] by simp
    have p_old: "p \<noteq> ?old \<or> page_no ?old = INVALID_PAGE_ID"
      using old_tab None by (metis option.distinct(1))
    have dp: "disk_pages (disk_manager b') p = disk_pages (disk_manager b) p"
      using p_old by (auto simp: M(13))
    have cont: "page_content b' q = page_content b q" for q
    proof (cases "q = p")
      case True
      then show ?thesis using None M(5,6,9) dp by (simp add: page_content_def)
    next
      case qp: False
      show ?thesis
      proof (cases "q = ?old \<and> page_no ?old \<noteq> INVALID_PAGE_ID")
        case True
        then have t: "map_of (page_table b) q = Some f" using old_tab by simp
        have "is_dirty (pages b ! f) \<or> data (pages b ! f) = disk_pages (disk_manager b) q"
          using P(6)[OF M(1)] True M(2) by auto
        then show ?thesis using True t qp by (auto simp: page_content_def M(9,13))
      next
        case False
        show ?thesis
        proof (cases "map_of (page_table b) q")
          case n: None
          then show ?thesis using False qp by (auto simp: page_content_def M(9,13))
        next
          case s: (Some g)
          from B(1)[OF s] have "page_id (pages b ! g) = q" "page_no q \<noteq> INVALID_PAGE_ID" by simp_all
          then have "g \<noteq> f" using False by auto
          then show ?thesis using False qp s M(4) by (auto simp: page_content_def M(9))
        qed
      qed
    qed
    have pins: "page_pin_count b' q = page_pin_count b q + (if q = p then 1 else 0)" for q
    proof (cases "q = p")
      case True
      then show ?thesis using None M(8,9) by (simp add: page_pin_count_def)
    next
      case qp: False
      show ?thesis
      proof (cases "q = ?old \<and> page_no ?old \<noteq> INVALID_PAGE_ID")
        case True
        then have t: "map_of (page_table b) q = Some f" using old_tab by simp
        then show ?thesis using True qp M(2) by (auto simp: page_pin_count_def M(9))
      next
        case False
        show ?thesis
        proof (cases "map_of (page_table b) q")
          case n: None
          then show ?thesis using False qp by (auto simp: page_pin_count_def M(9))
        next
          case s: (Some g)
          from B(1)[OF s] have "page_id (pages b ! g) = q" "page_no q \<noteq> INVALID_PAGE_ID" by simp_all
          then have "g \<noteq> f" using False by auto
          then show ?thesis using False qp s M(4) by (auto simp: page_pin_count_def M(9))
        qed
      qed
    qed
    have pc: "page_pin_count b p = 0" using None by (simp add: page_pin_count_def)
    have held: "page_id (pages b' ! g) = page_id (pages b ! g) \<and> data (pages b' ! g) = data (pages b ! g) \<and>
        is_dirty (pages b' ! g) = is_dirty (pages b ! g) \<and>
        pin_count (pages b ! g) \<le> pin_count (pages b' ! g)"
      if "g < length (pages b)" "0 < pin_count (pages b ! g)" for g
    proof -
      have "g \<noteq> f" using that M(2) by auto
      then show ?thesis using M(4) by simp
    qed
    have a1: "f < length (pages b')" "data (pages b' ! f) = page_content b p"
      "pin_count (pages b' ! f) = page_pin_count b p + 1"
      "data (pages b' ! f) = disk_pages (disk_manager b') p"
      using M(1,3,6,8) dp None pc by (simp_all add: page_content_def)
    have a2: "is_dirty (pages b' ! f) = page_dirty b p"
      using M(7) None by (simp add: page_dirty_def)
    show ?thesis
      apply (intro conjI allI impI)
      using pi a1 a2 M(3,5,14) cont pins held by blast+
  qed
  show "pool_inv b'" "f < length (pages b')" "length (pages b') = length (pages b)"
    "page_id (pages b' ! f) = p" "data (pages b' ! f) = page_content b p"
    "pin_count (pages b' ! f) = page_pin_count b p + 1"
    "\<And>q. page_content b' q = page_content b q"
    "\<And>q. page_pin_count b' q = page_pin_count b q + (if q = p then 1 else 0)"
    "fd2pageno (disk_manager b') = fd2pageno (disk_manager b)"
    "\<And>g. g < length (pages b) \<Longrightarrow> 0 < pin_count (pages b ! g) \<Longrightarrow>
        page_id (pages b' ! g) = page_id (pages b ! g) \<and> data (pages b' ! g) = data (pages b ! g) \<and>
        is_dirty (pages b' ! g) = is_dirty (pages b ! g) \<and>
        pin_count (pages b ! g) \<le> pin_count (pages b' ! g)"
    "0 < page_pin_count b p \<or> is_dirty (pages b' ! f) \<or>
       data (pages b' ! f) = disk_pages (disk_manager b') p"
    "is_dirty (pages b' ! f) = page_dirty b p"
    using all by blast+
qed

lemma fetch_page_succeeds:
  assumes "map_of (page_table b) p \<noteq> None \<or> free_list b \<noteq> [] \<or> replacer b \<noteq> []"
  shows "fst (fetch_page p b) \<noteq> None"
  using assms
  by (auto simp: fetch_page_def find_victim_page_def replacer_victim_def Let_def
      split: option.splits list.splits prod.splits)


lemma unpin_page_spec:
  assumes "pool_inv b" "f < length (pages b)" "page_id (pages b ! f) = p"
    "page_no p \<noteq> INVALID_PAGE_ID" "0 < pin_count (pages b ! f)"
    "d \<or> 1 < pin_count (pages b ! f) \<or> is_dirty (pages b ! f) \<or>
       data (pages b ! f) = disk_pages (disk_manager b) p"
    "unpin_page p d b = (ok, b')"
  shows "ok" "pool_inv b'" "length (pages b') = length (pages b)"
    "\<And>g. g \<noteq> f \<Longrightarrow> pages b' ! g = pages b ! g"
    "page_id (pages b' ! f) = p" "data (pages b' ! f) = data (pages b ! f)"
    "pin_count (pages b' ! f) = pin_count (pages b ! f) - 1"
    "is_dirty (pages b' ! f) = (is_dirty (pages b ! f) \<or> d)"
    "\<And>q. page_content b' q = page_content b q"
    "\<And>q. page_pin_count b' q = page_pin_count b q - (if q = p then 1 else 0)"
    "disk_manager b' = disk_manager b" "page_table b' = page_table b"
    "\<And>q. page_dirty b' q = (page_dirty b q \<or> (q = p \<and> d))"
proof -
  note P = pool_invD[OF assms(1)]
  note B = bpm_invD[OF P(1)]
  from B(2)[OF assms(2)] assms(3,4) have t: "map_of (page_table b) p = Some f" by simp
  let ?pg = "(pages b ! f)\<lparr>pin_count := pin_count (pages b ! f) - 1, is_dirty := (is_dirty (pages b ! f) \<or> d)\<rparr>"
  have e: "ok = True" "pages b' = (pages b)[f := ?pg]" "page_table b' = page_table b"
    "free_list b' = free_list b" "disk_manager b' = disk_manager b"
    "replacer b' = (if pin_count (pages b ! f) = 1 then replacer_unpin f (replacer b) else replacer b)"
    using assms(7,5,2) t by (auto simp: unpin_page_def Let_def split: if_splits)
  show "ok" using e by simp
  show "length (pages b') = length (pages b)" "\<And>g. g \<noteq> f \<Longrightarrow> pages b' ! g = pages b ! g"
    "page_id (pages b' ! f) = p" "data (pages b' ! f) = data (pages b ! f)"
    "pin_count (pages b' ! f) = pin_count (pages b ! f) - 1"
    "is_dirty (pages b' ! f) = (is_dirty (pages b ! f) \<or> d)"
    "disk_manager b' = disk_manager b" "page_table b' = page_table b"
    using e assms(2,3) by simp_all
  have i: "bpm_inv b'" using unpin_page_inv[OF P(1), of p d] assms(7) by simp
  have tabf: "map_of (page_table b) q = Some g \<Longrightarrow> (g = f \<longleftrightarrow> q = p)" for q g
    using B(1)[of q g] t assms(3) by (metis option.inject)
  show "\<And>q. page_content b' q = page_content b q"
    using e(2,3,5) by (auto simp: page_content_def nth_list_update_gen split: option.splits)
  show "\<And>q. page_pin_count b' q = page_pin_count b q - (if q = p then 1 else 0)"
    using e(2,3) t tabf assms(2) by (auto simp: page_pin_count_def nth_list_update_gen split: option.splits)
  show "\<And>q. page_dirty b' q = (page_dirty b q \<or> (q = p \<and> d))"
    using e(2,3) t tabf assms(2) by (auto simp: page_dirty_def nth_list_update_gen split: option.splits)
  show "pool_inv b'"
    unfolding pool_inv_def
  proof (intro conjI allI impI ballI)
    show "bpm_inv b'" by (rule i)
  next
    fix g assume "g < length (pages b')"
    then show "0 \<le> pin_count (pages b' ! g)"
      using P(2)[of g] assms(5) e(2) by (auto simp: nth_list_update_gen)
  next
    fix g assume "g \<in> set (free_list b')"
    then have g: "g \<in> set (free_list b)" using e(4) by simp
    then have "g \<noteq> f" using P(3)[OF g] assms(5) by auto
    then show "pin_count (pages b' ! g) = 0" using P(3)[OF g] e(2) by simp
  next
    fix g assume g: "g \<in> set (replacer b')"
    show "pin_count (pages b' ! g) = 0"
    proof (cases "g = f")
      case True
      have "f \<notin> set (replacer b)" using P(4)[of f] assms(5) by auto
      with g True have "pin_count (pages b ! f) = 1"
        using e(6) by (auto split: if_splits)
      then show ?thesis using True e(2) assms(2) by simp
    next
      case False
      with g have "g \<in> set (replacer b)" using e(6) by (auto simp: replacer_unpin_def split: if_splits)
      then show ?thesis using P(4)[of g] False e(2) by simp
    qed
  next
    fix g assume a: "g < length (pages b') \<and> pin_count (pages b' ! g) = 0"
    show "g \<in> set (free_list b') \<or> g \<in> set (replacer b')"
    proof (cases "g = f")
      case True
      with a have "pin_count (pages b ! f) = 1" using e(2) assms(2) by simp
      then show ?thesis using True e(6) by (simp add: replacer_unpin_def)
    next
      case False
      with a have "g < length (pages b)" "pin_count (pages b ! g) = 0" using e(2) by simp_all
      from P(5)[OF this] show ?thesis using e(4,6) by (auto simp: replacer_unpin_def)
    qed
  next
    fix g assume a: "g < length (pages b') \<and> page_no (page_id (pages b' ! g)) \<noteq> INVALID_PAGE_ID \<and>
        \<not> is_dirty (pages b' ! g) \<and> pin_count (pages b' ! g) = 0"
    show "data (pages b' ! g) = disk_pages (disk_manager b') (page_id (pages b' ! g))"
    proof (cases "g = f")
      case True
      with a have "\<not> d" "\<not> is_dirty (pages b ! f)" "pin_count (pages b ! f) = 1"
        using e(2) assms(2) by simp_all
      with assms(6) have "data (pages b ! f) = disk_pages (disk_manager b) p" by simp
      then show ?thesis using True e(2,5) assms(2,3) by simp
    next
      case False
      with a have "g < length (pages b)" "page_no (page_id (pages b ! g)) \<noteq> INVALID_PAGE_ID"
        "\<not> is_dirty (pages b ! g)" "pin_count (pages b ! g) = 0"
        using e(2) by simp_all
      from P(6)[OF this] show ?thesis using False e(2,5) by simp
    qed
  next
    fix g assume "g < length (pages b') \<and> page_no (page_id (pages b' ! g)) = INVALID_PAGE_ID"
    then show "g \<in> set (free_list b')"
      using P(7)[of g] e(2,4) by (auto simp: nth_list_update_gen split: if_splits)
  qed
qed

text \<open>Writing the page image of a pinned frame (a node handle's stores).\<close>

definition put_data :: "frame_id_t \<Rightarrow> 'd \<Rightarrow> 'd BufferPoolManager \<Rightarrow> 'd BufferPoolManager" where
  "put_data f x b = b\<lparr>pages := (pages b)[f := (pages b ! f)\<lparr>data := x\<rparr>]\<rparr>"

lemma put_data_spec:
  assumes "pool_inv b" "f < length (pages b)" "0 < pin_count (pages b ! f)"
  shows "pool_inv (put_data f x b)"
    "\<And>q. page_content (put_data f x b) q = (if q = page_id (pages b ! f) then x else page_content b q)"
    "\<And>q. page_pin_count (put_data f x b) q = page_pin_count b q"
proof -
  note P = pool_invD[OF assms(1)]
  note B = bpm_invD[OF P(1)]
  have v: "page_no (page_id (pages b ! f)) \<noteq> INVALID_PAGE_ID"
    using P(7)[OF assms(2)] P(3)[of f] assms(3) by auto
  from B(2)[OF assms(2) v] have t: "map_of (page_table b) (page_id (pages b ! f)) = Some f" by simp
  have tabf: "map_of (page_table b) q = Some g \<Longrightarrow> (g = f \<longleftrightarrow> q = page_id (pages b ! f))" for q g
    using B(1)[of q g] t by (metis option.inject)
  have i: "bpm_inv (put_data f x b)"
    by (rule bpm_inv_frame[OF P(1)]) (auto simp: put_data_def nth_list_update_gen)
  show "\<And>q. page_content (put_data f x b) q = (if q = page_id (pages b ! f) then x else page_content b q)"
    using t tabf assms(2) by (auto simp: page_content_def put_data_def nth_list_update_gen split: option.splits)
  show "\<And>q. page_pin_count (put_data f x b) q = page_pin_count b q"
    by (auto simp: page_pin_count_def put_data_def nth_list_update_gen split: option.splits)
  show "pool_inv (put_data f x b)"
    unfolding pool_inv_def
    using i P(2-7) assms(3)
    by (auto simp: put_data_def nth_list_update_gen)
qed


lemma new_page_state:
  assumes "pool_inv b" "new_page fdn b = (Some (v, pid), b')"
  shows "v < length (pages b)" "pin_count (pages b ! v) = 0"
    "pid = \<lparr>fd = fdn, page_no = fd2pageno (disk_manager b) fdn\<rparr>"
    "length (pages b') = length (pages b)"
    "\<And>g. g \<noteq> v \<Longrightarrow> pages b' ! g = pages b ! g"
    "page_id (pages b' ! v) = pid" "data (pages b' ! v) = 0"
    "is_dirty (pages b' ! v) = True" "pin_count (pages b' ! v) = 1"
    "map_of (page_table b') =
       ((if page_no (page_id (pages b ! v)) \<noteq> INVALID_PAGE_ID
         then (map_of (page_table b))(page_id (pages b ! v) := None) else map_of (page_table b))(pid \<mapsto> v))"
    "set (free_list b') = set (free_list b) - {v}" "distinct (free_list b')"
    "set (replacer b') = set (replacer b) - {v}"
    "disk_pages (disk_manager b') =
       (if is_dirty (pages b ! v) \<and> page_no (page_id (pages b ! v)) \<noteq> INVALID_PAGE_ID
        then (disk_pages (disk_manager b))(page_id (pages b ! v) := data (pages b ! v))
        else disk_pages (disk_manager b))"
    "fd2pageno (disk_manager b') = (fd2pageno (disk_manager b))(fdn := fd2pageno (disk_manager b) fdn + 1)"
proof -
  obtain b1 where fv: "find_victim_page b = (Some v, b1)"
    using assms(2) by (auto simp: new_page_def Let_def split: prod.splits option.splits)
  note V = find_victim_page_some[OF assms(1) fv]
  let ?pno = "fd2pageno (disk_manager b1) fdn"
  let ?dm = "snd (allocate_page fdn (disk_manager b1))"
  let ?id = "\<lparr>fd = fdn, page_no = ?pno\<rparr>"
  let ?b1 = "b1\<lparr>disk_manager := ?dm\<rparr>"
  let ?b2 = "update_page v ?id v ?b1"
  have "new_page fdn b = (Some (v, ?id), ?b2\<lparr>pages := (pages ?b2)[v := (pages ?b2 ! v)\<lparr>is_dirty := True, pin_count := 1\<rparr>],
            replacer := replacer_pin v (replacer ?b2)\<rparr>)"
    using fv by (simp add: new_page_def Let_def allocate_page_def)
  with assms(2) have e: "b' = ?b2\<lparr>pages := (pages ?b2)[v := (pages ?b2 ! v)\<lparr>is_dirty := True, pin_count := 1\<rparr>],
            replacer := replacer_pin v (replacer ?b2)\<rparr>" and pid: "pid = ?id"
    by (metis prod.inject option.inject)+
  have v1: "v < length (pages ?b1)" using V by simp
  note U = update_page_pages[OF v1, of ?id] update_page_table[of v ?id v ?b1] update_page_rest[of v ?id v ?b1]
    update_page_disk[of v ?id v ?b1]
  show "v < length (pages b)" "pin_count (pages b ! v) = 0" by (rule V)+
  show "pid = \<lparr>fd = fdn, page_no = fd2pageno (disk_manager b) fdn\<rparr>" using pid V(5) by simp
  show "length (pages b') = length (pages b)" unfolding e using U(1) V(3) by simp
  show "\<And>g. g \<noteq> v \<Longrightarrow> pages b' ! g = pages b ! g" unfolding e using U(1) V(3) by simp
  show "page_id (pages b' ! v) = pid" unfolding e pid using U(1) V(3) v1 by simp
  show "data (pages b' ! v) = 0" unfolding e using U(1) V(3) v1 by simp
  show "is_dirty (pages b' ! v) = True" unfolding e using U(1) V(3) v1 by simp
  show "pin_count (pages b' ! v) = 1" unfolding e using U(1) V(3) v1 by simp
  show "map_of (page_table b') =
       ((if page_no (page_id (pages b ! v)) \<noteq> INVALID_PAGE_ID
         then (map_of (page_table b))(page_id (pages b ! v) := None) else map_of (page_table b))(pid \<mapsto> v))"
    unfolding e pid using U(2) V(3,4) by simp
  show "set (free_list b') = set (free_list b) - {v}" "distinct (free_list b')"
    unfolding e using U(3) V(6,7) by simp_all
  show "set (replacer b') = set (replacer b) - {v}"
    unfolding e using U(3) V(8,9) by (auto simp: replacer_pin_def)
  show "disk_pages (disk_manager b') =
       (if is_dirty (pages b ! v) \<and> page_no (page_id (pages b ! v)) \<noteq> INVALID_PAGE_ID
        then (disk_pages (disk_manager b))(page_id (pages b ! v) := data (pages b ! v))
        else disk_pages (disk_manager b))"
    unfolding e using U(4) V(3,5) by (simp add: allocate_page_def)
  show "fd2pageno (disk_manager b') = (fd2pageno (disk_manager b))(fdn := fd2pageno (disk_manager b) fdn + 1)"
    unfolding e using U(3) V(5) by (simp add: allocate_page_def)
qed

lemma new_page_spec:
  assumes "pool_inv b" "new_page fdn b = (Some (f, pid), b')"
  shows "pid = \<lparr>fd = fdn, page_no = fd2pageno (disk_manager b) fdn\<rparr>"
    "pool_inv b'" "f < length (pages b')" "length (pages b') = length (pages b)"
    "page_id (pages b' ! f) = pid" "data (pages b' ! f) = 0" "pin_count (pages b' ! f) = 1"
    "\<And>q. page_content b' q = (if q = pid then 0 else page_content b q)"
    "\<And>q. page_pin_count b' q = page_pin_count b q + (if q = pid then 1 else 0)"
    "fd2pageno (disk_manager b') = (fd2pageno (disk_manager b))(fdn := fd2pageno (disk_manager b) fdn + 1)"
    "\<And>g. g < length (pages b) \<Longrightarrow> 0 < pin_count (pages b ! g) \<Longrightarrow> g \<noteq> f \<and> pages b' ! g = pages b ! g"
    "page_pin_count b pid = 0"
proof -
  note P = pool_invD[OF assms(1)]
  note B = bpm_invD[OF P(1)]
  note M = new_page_state[OF assms]
  let ?old = "page_id (pages b ! f)"
  have i: "bpm_inv b'" using new_page_inv[OF P(1), of fdn] assms(2) by simp
  have vp: "page_no pid \<noteq> INVALID_PAGE_ID" using B(6)[of fdn] M(3) by (simp add: INVALID_PAGE_ID_def)
  have None: "map_of (page_table b) pid = None"
  proof (cases "map_of (page_table b) pid")
    case (Some g)
    from B(1)[OF Some] have g: "g < length (pages b)" "page_id (pages b ! g) = pid" by simp_all
    from B(2)[OF g(1)] g(2) vp have "page_no pid < fd2pageno (disk_manager b) (fd pid)" by simp
    then show ?thesis using M(3) by simp
  qed simp
  have old_tab: "page_no ?old \<noteq> INVALID_PAGE_ID \<Longrightarrow> map_of (page_table b) ?old = Some f"
    using B(2)[OF M(1)] by simp
  have p_old: "pid \<noteq> ?old \<or> page_no ?old = INVALID_PAGE_ID"
    using old_tab None by (metis option.distinct(1))
  have uniq: "g \<noteq> f \<Longrightarrow> g < length (pages b) \<Longrightarrow> page_no (page_id (pages b ! g)) \<noteq> INVALID_PAGE_ID \<Longrightarrow>
      page_id (pages b ! g) \<noteq> ?old" for g
    using B(2)[of g] old_tab by auto
  show "pid = \<lparr>fd = fdn, page_no = fd2pageno (disk_manager b) fdn\<rparr>" by (rule M(3))
  show "f < length (pages b')" "length (pages b') = length (pages b)"
    "page_id (pages b' ! f) = pid" "data (pages b' ! f) = 0" "pin_count (pages b' ! f) = 1"
    using M by simp_all
  show "fd2pageno (disk_manager b') = (fd2pageno (disk_manager b))(fdn := fd2pageno (disk_manager b) fdn + 1)"
    by (rule M(15))
  show "page_pin_count b pid = 0" using None by (simp add: page_pin_count_def)
  show "g \<noteq> f \<and> pages b' ! g = pages b ! g" if "g < length (pages b)" "0 < pin_count (pages b ! g)" for g
  proof -
    have "g \<noteq> f" using that M(2) by auto
    then show ?thesis using M(5) by simp
  qed
  show "page_content b' q = (if q = pid then 0 else page_content b q)" for q
  proof (cases "q = pid")
    case True
    then show ?thesis using M(7,10) by (simp add: page_content_def)
  next
    case qp: False
    show ?thesis
    proof (cases "q = ?old \<and> page_no ?old \<noteq> INVALID_PAGE_ID")
      case True
      then have t: "map_of (page_table b) q = Some f" using old_tab by simp
      have "is_dirty (pages b ! f) \<or> data (pages b ! f) = disk_pages (disk_manager b) q"
        using P(6)[OF M(1)] True M(2) by auto
      then show ?thesis using True t qp by (auto simp: page_content_def M(10,14))
    next
      case False
      show ?thesis
      proof (cases "map_of (page_table b) q")
        case n: None
        then show ?thesis using False qp by (auto simp: page_content_def M(10,14))
      next
        case s: (Some g)
        from B(1)[OF s] have "page_id (pages b ! g) = q" "page_no q \<noteq> INVALID_PAGE_ID" by simp_all
        then have "g \<noteq> f" using False by auto
        then show ?thesis using False qp s M(5) by (auto simp: page_content_def M(10))
      qed
    qed
  qed
  show "page_pin_count b' q = page_pin_count b q + (if q = pid then 1 else 0)" for q
  proof (cases "q = pid")
    case True
    then show ?thesis using None M(9,10) by (simp add: page_pin_count_def)
  next
    case qp: False
    show ?thesis
    proof (cases "q = ?old \<and> page_no ?old \<noteq> INVALID_PAGE_ID")
      case True
      then have t: "map_of (page_table b) q = Some f" using old_tab by simp
      then show ?thesis using True qp M(2) by (auto simp: page_pin_count_def M(10))
    next
      case False
      show ?thesis
      proof (cases "map_of (page_table b) q")
        case n: None
        then show ?thesis using False qp by (auto simp: page_pin_count_def M(10))
      next
        case s: (Some g)
        from B(1)[OF s] have "page_id (pages b ! g) = q" "page_no q \<noteq> INVALID_PAGE_ID" by simp_all
        then have "g \<noteq> f" using False by auto
        then show ?thesis using False qp s M(5) by (auto simp: page_pin_count_def M(10))
      qed
    qed
  qed
  show "pool_inv b'"
    unfolding pool_inv_def
  proof (intro conjI allI impI ballI)
    show "bpm_inv b'" by (rule i)
  next
    fix g assume "g < length (pages b')"
    then show "0 \<le> pin_count (pages b' ! g)"
      using P(2)[of g] M(4,5,9) by (cases "g = f") auto
  next
    fix g assume "g \<in> set (free_list b')"
    then show "pin_count (pages b' ! g) = 0" using P(3)[of g] M(5,11) by auto
  next
    fix g assume "g \<in> set (replacer b')"
    then show "pin_count (pages b' ! g) = 0" using P(4)[of g] M(5,13) by auto
  next
    fix g assume "g < length (pages b') \<and> pin_count (pages b' ! g) = 0"
    then show "g \<in> set (free_list b') \<or> g \<in> set (replacer b')"
      using P(5)[of g] M(4,5,9,11,13) by (cases "g = f") auto
  next
    fix g assume a: "g < length (pages b') \<and> page_no (page_id (pages b' ! g)) \<noteq> INVALID_PAGE_ID \<and>
        \<not> is_dirty (pages b' ! g) \<and> pin_count (pages b' ! g) = 0"
    then have gv: "g \<noteq> f" using M(9) by auto
    with a have g: "g < length (pages b)" "page_no (page_id (pages b ! g)) \<noteq> INVALID_PAGE_ID"
      "\<not> is_dirty (pages b ! g)" "pin_count (pages b ! g) = 0"
      using M(4,5) by auto
    have "data (pages b ! g) = disk_pages (disk_manager b) (page_id (pages b ! g))"
      using P(6)[OF g] .
    moreover have "disk_pages (disk_manager b') (page_id (pages b ! g)) =
        disk_pages (disk_manager b) (page_id (pages b ! g))"
      using uniq[OF gv g(1,2)] by (simp add: M(14))
    ultimately show "data (pages b' ! g) = disk_pages (disk_manager b') (page_id (pages b' ! g))"
      using M(5)[OF gv] by simp
  next
    fix g assume a: "g < length (pages b') \<and> page_no (page_id (pages b' ! g)) = INVALID_PAGE_ID"
    with vp have gv: "g \<noteq> f" using M(6) by auto
    with a show "g \<in> set (free_list b')" using P(7)[of g] M(4,5,11) by auto
  qed
qed

section \<open>Node handles over the buffer pool\<close>

definition pid_of :: "'k IxIndexHandle \<Rightarrow> page_id_t \<Rightarrow> PageId" where
  "pid_of s p = \<lparr>fd = ih_fd s, page_no = p\<rparr>"

definition content :: "'k IxIndexHandle \<Rightarrow> page_id_t \<Rightarrow> 'k IxNode" where
  "content s p = page_content (buffer_pool_manager s) (pid_of s p)"

definition pins :: "'k IxIndexHandle \<Rightarrow> PageId \<Rightarrow> int" where
  "pins s q = page_pin_count (buffer_pool_manager s) q"

definition next_page :: "'k IxIndexHandle \<Rightarrow> page_id_t" where
  "next_page s = fd2pageno (disk_manager (buffer_pool_manager s)) (ih_fd s)"

definition allocated :: "'k IxIndexHandle \<Rightarrow> page_id_t \<Rightarrow> bool" where
  "allocated s p \<longleftrightarrow> 0 \<le> p \<and> p < next_page s"

definition held :: "'k IxIndexHandle \<Rightarrow> frame_id_t \<Rightarrow> page_id_t \<Rightarrow> bool" where
  "held s h p \<longleftrightarrow>
     h < length (pages (buffer_pool_manager s)) \<and>
     page_id (pages (buffer_pool_manager s) ! h) = pid_of s p \<and>
     0 < pin_count (pages (buffer_pool_manager s) ! h) \<and> allocated s p"

definition clean :: "'k IxIndexHandle \<Rightarrow> frame_id_t \<Rightarrow> bool" where
  "clean s h \<longleftrightarrow>
     1 < pin_count (pages (buffer_pool_manager s) ! h) \<or>
     is_dirty (pages (buffer_pool_manager s) ! h) \<or>
     data (pages (buffer_pool_manager s) ! h) =
       disk_pages (disk_manager (buffer_pool_manager s)) (page_id (pages (buffer_pool_manager s) ! h))"

definition same_hdr :: "'k IxIndexHandle \<Rightarrow> 'k IxIndexHandle \<Rightarrow> bool" where
  "same_hdr s s' \<longleftrightarrow>
     file_hdr s' = file_hdr s \<and> ih_fd s' = ih_fd s \<and> binary_search s' = binary_search s"

definition pool_exhausted :: "('k, 'a) ix_result \<Rightarrow> bool" where
  "pool_exhausted r \<longleftrightarrow> r = Inl AssertFetchNode \<or> r = Inl NullPage"

definition ix_ok :: "('k, 'a) ix_result \<Rightarrow> ('a \<Rightarrow> 'k IxIndexHandle \<Rightarrow> bool) \<Rightarrow> bool" where
  "ix_ok r Q \<longleftrightarrow> pool_exhausted r \<or> (\<exists>x s'. r = Inr (x, s') \<and> Q x s')"

lemma ix_okI: "r = Inr (x, s') \<Longrightarrow> Q x s' \<Longrightarrow> ix_ok r Q"
  by (simp add: ix_ok_def)

lemma ix_ok_bind:
  assumes "ix_ok r Q" "\<And>x s'. Q x s' \<Longrightarrow> ix_ok (f x s') R"
  shows "ix_ok (ix_bind r f) R"
proof (cases r)
  case (Inl e)
  then show ?thesis using assms(1) by (auto simp: ix_ok_def ix_bind_def pool_exhausted_def)
next
  case (Inr y)
  obtain x s' where y: "y = (x, s')" by (cases y)
  with Inr assms(1) have "Q x s'" by (auto simp: ix_ok_def pool_exhausted_def)
  from assms(2)[OF this] show ?thesis using Inr y by (simp add: ix_bind_def)
qed

lemma ix_ok_mono: "ix_ok r Q \<Longrightarrow> (\<And>x s'. Q x s' \<Longrightarrow> R x s') \<Longrightarrow> ix_ok r R"
  by (auto simp: ix_ok_def)

lemma held_node:
  assumes "pool_inv (buffer_pool_manager s)" "held s h p"
  shows "node_of s h = content s p" "get_page_no s h = p" "get_page_id s h = pid_of s p"
    "pins s (pid_of s p) = pin_count (pages (buffer_pool_manager s) ! h)"
    "map_of (page_table (buffer_pool_manager s)) (pid_of s p) = Some h"
proof -
  note P = pool_invD[OF assms(1)]
  note B = bpm_invD[OF P(1)]
  from assms(2) have h: "h < length (pages (buffer_pool_manager s))"
    "page_id (pages (buffer_pool_manager s) ! h) = pid_of s p" "0 \<le> p"
    by (simp_all add: held_def allocated_def)
  have "page_no (pid_of s p) \<noteq> INVALID_PAGE_ID" using h(3) by (simp add: pid_of_def INVALID_PAGE_ID_def)
  with B(2)[OF h(1)] h(2) show t: "map_of (page_table (buffer_pool_manager s)) (pid_of s p) = Some h" by simp
  show "node_of s h = content s p" using t by (simp add: node_of_def content_def page_content_def)
  show "get_page_id s h = pid_of s p" using h(2) by (simp add: get_page_id_def)
  then show "get_page_no s h = p" by (simp add: get_page_no_def pid_of_def)
  show "pins s (pid_of s p) = pin_count (pages (buffer_pool_manager s) ! h)"
    using t by (simp add: pins_def page_pin_count_def)
qed

lemma page_pin_count_nonneg: "pool_inv b \<Longrightarrow> 0 \<le> page_pin_count b q"
  using pool_invD(2)[of b] bpm_invD(1)[OF pool_invD(1), of b q]
  by (auto simp: page_pin_count_def split: option.splits)

lemma fetch_node_ok:
  assumes "pool_inv (buffer_pool_manager s)" "allocated s p"
  shows "ix_ok (fetch_node p s) (\<lambda>h s'.
      pool_inv (buffer_pool_manager s') \<and> same_hdr s s' \<and> held s' h p \<and> clean s' h \<and>
      next_page s' = next_page s \<and>
      (\<forall>q. content s' q = content s q) \<and>
      (\<forall>q. pins s' q = pins s q + (if q = pid_of s p then 1 else 0)) \<and>
      (\<forall>g q. held s g q \<longrightarrow> held s' g q \<and> node_of s' g = node_of s g) \<and>
      page_dirty (buffer_pool_manager s') (pid_of s p) = page_dirty (buffer_pool_manager s) (pid_of s p))"
proof (cases "fetch_page (pid_of s p) (buffer_pool_manager s)")
  case (Pair r b')
  show ?thesis
  proof (cases r)
    case None
    then show ?thesis using Pair by (simp add: ix_ok_def pool_exhausted_def fetch_node_def pid_of_def)
  next
    case (Some h)
    let ?s' = "s\<lparr>buffer_pool_manager := b'\<rparr>"
    have r: "fetch_node p s = Inr (h, ?s')" using Pair Some by (simp add: fetch_node_def pid_of_def)
    have a: "0 \<le> page_no (pid_of s p)"
      "page_no (pid_of s p) < fd2pageno (disk_manager (buffer_pool_manager s)) (fd (pid_of s p))"
      using assms(2) by (simp_all add: allocated_def pid_of_def next_page_def)
    note F = fetch_page_spec[OF assms(1) a Pair[unfolded Some]]
    show ?thesis
    proof (rule ix_okI[OF r], intro conjI allI impI)
      show "pool_inv (buffer_pool_manager ?s')" using F(1) by simp
      show "same_hdr s ?s'" by (simp add: same_hdr_def)
      show "next_page ?s' = next_page s" using F(9) by (simp add: next_page_def)
      show "held ?s' h p"
        using F(2,4,6) assms(2) F(9) page_pin_count_nonneg[OF assms(1), of "pid_of s p"]
        by (simp add: held_def pid_of_def allocated_def next_page_def)
      show "clean ?s' h"
        using F(4,6,11) by (auto simp: clean_def)
      show "content ?s' q = content s q" for q using F(7) by (simp add: content_def pid_of_def)
      show "pins ?s' q = pins s q + (if q = pid_of s p then 1 else 0)" for q
        using F(8) by (simp add: pins_def)
      show "held ?s' g q" if "held s g q" for g q
        using that F(10)[of g] F(3,9) by (auto simp: held_def pid_of_def allocated_def next_page_def)
      show "node_of ?s' g = node_of s g" if "held s g q" for g q
        using that F(10)[of g] by (auto simp: held_def node_of_def)
      have hd: "held ?s' h p"
        using F(2,4,6) assms(2) F(9) page_pin_count_nonneg[OF assms(1), of "pid_of s p"]
        by (simp add: held_def pid_of_def allocated_def next_page_def)
      have pi: "pool_inv (buffer_pool_manager ?s')" using F(1) by simp
      from held_node(5)[OF pi hd] F(12)
      show "page_dirty (buffer_pool_manager ?s') (pid_of s p) = page_dirty (buffer_pool_manager s) (pid_of s p)"
        by (simp add: page_dirty_def pid_of_def)
    qed
  qed
qed

lemma unpin_spec:
  assumes "pool_inv (buffer_pool_manager s)" "held s h p" "d \<or> clean s h"
  shows "fst (unpin h d s)"
    "pool_inv (buffer_pool_manager (snd (unpin h d s)))"
    "same_hdr s (snd (unpin h d s))"
    "next_page (snd (unpin h d s)) = next_page s"
    "\<And>q. content (snd (unpin h d s)) q = content s q"
    "\<And>q. pins (snd (unpin h d s)) q = pins s q - (if q = pid_of s p then 1 else 0)"
    "\<And>g q. held s g q \<Longrightarrow> g \<noteq> h \<Longrightarrow> held (snd (unpin h d s)) g q"
    "1 < pin_count (pages (buffer_pool_manager s) ! h) \<Longrightarrow> held (snd (unpin h d s)) h p"
    "\<And>g. node_of (snd (unpin h d s)) g = node_of s g"
    "\<And>g. get_page_id (snd (unpin h d s)) g = get_page_id s g"
    "\<And>q. page_dirty (buffer_pool_manager (snd (unpin h d s))) q =
        (page_dirty (buffer_pool_manager s) q \<or> (q = pid_of s p \<and> d))"
proof -
  let ?b = "buffer_pool_manager s"
  obtain ok b' where u: "unpin_page (pid_of s p) d ?b = (ok, b')" by (cases "unpin_page (pid_of s p) d ?b")
  from assms(2) have h: "h < length (pages ?b)" "page_id (pages ?b ! h) = pid_of s p"
    "0 < pin_count (pages ?b ! h)" "0 \<le> p" "p < next_page s"
    by (simp_all add: held_def allocated_def)
  have vp: "page_no (pid_of s p) \<noteq> INVALID_PAGE_ID" using h(4) by (simp add: pid_of_def INVALID_PAGE_ID_def)
  have c: "d \<or> 1 < pin_count (pages ?b ! h) \<or> is_dirty (pages ?b ! h) \<or>
       data (pages ?b ! h) = disk_pages (disk_manager ?b) (pid_of s p)"
    using assms(3) h(2) by (auto simp: clean_def)
  note U = unpin_page_spec[OF assms(1) h(1,2) vp h(3) c u]
  have e: "unpin h d s = (ok, s\<lparr>buffer_pool_manager := b'\<rparr>)"
    using u h(2) by (simp add: unpin_def get_page_id_def)
  have nth: "\<And>g. page_id (pages b' ! g) = page_id (pages ?b ! g) \<and> data (pages b' ! g) = data (pages ?b ! g)"
    using U(4,5,6) h(2) by metis
  show "fst (unpin h d s)" using e U(1) by simp
  show "pool_inv (buffer_pool_manager (snd (unpin h d s)))" using e U(2) by simp
  show "same_hdr s (snd (unpin h d s))" using e by (simp add: same_hdr_def)
  show "next_page (snd (unpin h d s)) = next_page s" using e U(11) by (simp add: next_page_def)
  show "\<And>q. content (snd (unpin h d s)) q = content s q"
    using e U(9) by (simp add: content_def pid_of_def)
  show "\<And>q. pins (snd (unpin h d s)) q = pins s q - (if q = pid_of s p then 1 else 0)"
    using e U(10) by (simp add: pins_def)
  show "\<And>g q. held s g q \<Longrightarrow> g \<noteq> h \<Longrightarrow> held (snd (unpin h d s)) g q"
    using e U(3,4,11) by (simp add: held_def pid_of_def allocated_def next_page_def)
  show "1 < pin_count (pages (buffer_pool_manager s) ! h) \<Longrightarrow> held (snd (unpin h d s)) h p"
    using e U(3,5,7,11) h(1,4,5) by (simp add: held_def pid_of_def allocated_def next_page_def)
  show "\<And>g. node_of (snd (unpin h d s)) g = node_of s g" using e nth by (simp add: node_of_def)
  show "\<And>g. get_page_id (snd (unpin h d s)) g = get_page_id s g" using e nth by (simp add: get_page_id_def)
  show "\<And>q. page_dirty (buffer_pool_manager (snd (unpin h d s))) q =
        (page_dirty (buffer_pool_manager s) q \<or> (q = pid_of s p \<and> d))"
    using e U(13) by simp
qed

lemma update_node_spec:
  assumes "pool_inv (buffer_pool_manager s)" "held s h p"
  shows "pool_inv (buffer_pool_manager (update_node h f s))"
    "same_hdr s (update_node h f s)"
    "next_page (update_node h f s) = next_page s"
    "\<And>q. content (update_node h f s) q = (if q = p then f (content s p) else content s q)"
    "\<And>q. pins (update_node h f s) q = pins s q"
    "\<And>g q. held s g q \<Longrightarrow> held (update_node h f s) g q"
    "\<And>g. get_page_id (update_node h f s) g = get_page_id s g"
    "\<And>g. node_of (update_node h f s) g = (if g = h then f (node_of s h) else node_of s g)"
proof -
  let ?b = "buffer_pool_manager s"
  from assms(2) have h: "h < length (pages ?b)" "page_id (pages ?b ! h) = pid_of s p"
    "0 < pin_count (pages ?b ! h)"
    by (simp_all add: held_def)
  have e: "update_node h f s = s\<lparr>buffer_pool_manager := put_data h (f (data (pages ?b ! h))) ?b\<rparr>"
    by (simp add: update_node_def put_data_def)
  note D = put_data_spec[OF assms(1) h(1,3), of "f (data (pages ?b ! h))"]
  note N = held_node[OF assms]
  show "pool_inv (buffer_pool_manager (update_node h f s))" using e D(1) by simp
  show "same_hdr s (update_node h f s)" by (simp add: same_hdr_def update_node_def)
  show "next_page (update_node h f s) = next_page s" by (simp add: next_page_def update_node_def)
  show "\<And>q. content (update_node h f s) q = (if q = p then f (content s p) else content s q)"
    using D(2) h(2) N(1) unfolding e by (auto simp: content_def pid_of_def node_of_def)
  show "\<And>q. pins (update_node h f s) q = pins s q" using D(3) unfolding e by (simp add: pins_def)
  show "\<And>g q. held s g q \<Longrightarrow> held (update_node h f s) g q"
    by (auto simp: held_def update_node_def pid_of_def allocated_def next_page_def nth_list_update_gen)
  show "\<And>g. get_page_id (update_node h f s) g = get_page_id s g"
    by (simp add: get_page_id_def update_node_def nth_list_update_gen)
  show "\<And>g. node_of (update_node h f s) g = (if g = h then f (node_of s h) else node_of s g)"
    using h(1) by (simp add: node_of_def update_node_def nth_list_update_gen)
qed

lemma create_node_ok:
  assumes "pool_inv (buffer_pool_manager s)"
  shows "ix_ok (create_node s) (\<lambda>h s'.
      pool_inv (buffer_pool_manager s') \<and> held s' h (next_page s) \<and>
      next_page s' = next_page s + 1 \<and>
      file_hdr s' = (file_hdr s)\<lparr>num_pages := num_pages (file_hdr s) + 1\<rparr> \<and>
      ih_fd s' = ih_fd s \<and> binary_search s' = binary_search s \<and>
      (\<forall>q. content s' q = (if q = next_page s then 0 else content s q)) \<and>
      (\<forall>q. pins s' q = pins s q + (if q = pid_of s (next_page s) then 1 else 0)) \<and>
      pins s (pid_of s (next_page s)) = 0 \<and>
      (\<forall>g q. held s g q \<longrightarrow> held s' g q \<and> g \<noteq> h \<and> node_of s' g = node_of s g))"
proof (cases "new_page (ih_fd s) (buffer_pool_manager s)")
  case (Pair r b')
  show ?thesis
  proof (cases r)
    case None
    then show ?thesis using Pair by (simp add: ix_ok_def pool_exhausted_def create_node_def)
  next
    case (Some hp)
    obtain h pid where hp: "hp = (h, pid)" by (cases hp)
    let ?s' = "s\<lparr>file_hdr := (file_hdr s)\<lparr>num_pages := num_pages (file_hdr s) + 1\<rparr>, buffer_pool_manager := b'\<rparr>"
    have r: "create_node s = Inr (h, ?s')" using Pair Some hp by (simp add: create_node_def)
    note F = new_page_spec[OF assms Pair[unfolded Some hp]]
    have pid: "pid = pid_of s (next_page s)" using F(1) by (simp add: pid_of_def next_page_def)
    have np: "0 \<le> next_page s"
      using bpm_invD(6)[OF pool_invD(1)[OF assms]] by (simp add: next_page_def)
    show ?thesis
    proof (rule ix_okI[OF r], intro conjI allI impI)
      show "pool_inv (buffer_pool_manager ?s')" using F(2) by simp
      show "next_page ?s' = next_page s + 1" using F(10) by (simp add: next_page_def)
      show "held ?s' h (next_page s)"
        using F(3,5,7,10) pid np by (simp add: held_def pid_of_def allocated_def next_page_def)
      show "file_hdr ?s' = (file_hdr s)\<lparr>num_pages := num_pages (file_hdr s) + 1\<rparr>" by simp
      show "ih_fd ?s' = ih_fd s" "binary_search ?s' = binary_search s" by simp_all
      show "content ?s' q = (if q = next_page s then 0 else content s q)" for q
        using F(8)[of "pid_of s q"] pid by (auto simp: content_def pid_of_def)
      show "pins ?s' q = pins s q + (if q = pid_of s (next_page s) then 1 else 0)" for q
        using F(9) pid by (simp add: pins_def)
      show "pins s (pid_of s (next_page s)) = 0" using F(12) pid by (simp add: pins_def)
      show "held ?s' g q" "g \<noteq> h" "node_of ?s' g = node_of s g" if "held s g q" for g q
        using that F(11)[of g] F(4,10) by (auto simp: held_def pid_of_def allocated_def next_page_def node_of_def)
    qed
  qed
qed

subsection \<open>get\_rid\<close>

lemma fresh_pool_pool_inv:
  assumes "fresh_pool b" "list_all (\<lambda>pg. pin_count pg = 0) (pages b)"
    "\<forall>f. 0 \<le> fd2pageno (disk_manager b) f"
  shows "pool_inv b"
  unfolding pool_inv_def
  using fresh_pool_inv[OF assms(1,3)] assms(1,2)
  by (auto simp: fresh_pool_def list_all_length)

definition ex_rid :: "int \<Rightarrow> Rid" where "ex_rid k = \<lparr>rid_page_no = k, rid_slot_no = 0\<rparr>"






subsection \<open>adjust\_root\<close>

lemma hdr_update_simps [simp]:
  "content (s\<lparr>file_hdr := X\<rparr>) = content s"
  "pins (s\<lparr>file_hdr := X\<rparr>) = pins s"
  "next_page (s\<lparr>file_hdr := X\<rparr>) = next_page s"
  "allocated (s\<lparr>file_hdr := X\<rparr>) = allocated s"
  "held (s\<lparr>file_hdr := X\<rparr>) = held s"
  "clean (s\<lparr>file_hdr := X\<rparr>) = clean s"
  "node_of (s\<lparr>file_hdr := X\<rparr>) = node_of s"
  "get_page_id (s\<lparr>file_hdr := X\<rparr>) = get_page_id s"
  "get_page_no (s\<lparr>file_hdr := X\<rparr>) = get_page_no s"
  "pid_of (s\<lparr>file_hdr := X\<rparr>) = pid_of s"
  by (auto simp: fun_eq_iff content_def pins_def next_page_def allocated_def held_def clean_def
      node_of_def get_page_id_def get_page_no_def pid_of_def)

lemma hdr_update_fns [simp]:
  "update_node h f (s\<lparr>file_hdr := X\<rparr>) = (update_node h f s)\<lparr>file_hdr := X\<rparr>"
  "file_hdr (update_node h f s) = file_hdr s"
  "ih_fd (update_node h f s) = ih_fd s"
  "binary_search (update_node h f s) = binary_search s"
  "snd (unpin h d (s\<lparr>file_hdr := X\<rparr>)) = (snd (unpin h d s))\<lparr>file_hdr := X\<rparr>"
  "fst (unpin h d (s\<lparr>file_hdr := X\<rparr>)) = fst (unpin h d s)"
  "file_hdr (snd (unpin h d s)) = file_hdr s"
  "ih_fd (snd (unpin h d s)) = ih_fd s"
  "binary_search (snd (unpin h d s)) = binary_search s"
  by (auto simp: update_node_def unpin_def get_page_id_def split: prod.splits)

lemma put_node_hdr [simp]:
  "file_hdr (put_node h n s) = file_hdr s"
  "ih_fd (put_node h n s) = ih_fd s"
  "binary_search (put_node h n s) = binary_search s"
  "pid_of (put_node h n s) = pid_of s"
  "pid_of (update_node h f s) = pid_of s"
  "pid_of (snd (unpin h d s)) = pid_of s"
  by (simp_all add: put_node_def pid_of_def fun_eq_iff)

lemma fetch_node_hdr [simp]:
  "fetch_node p (s\<lparr>file_hdr := X\<rparr>) = map_sum id (\<lambda>(h, s'). (h, s'\<lparr>file_hdr := X\<rparr>)) (fetch_node p s)"
  by (auto simp: fetch_node_def split: prod.splits option.splits)


lemma fetch_node_avail:
  assumes "map_of (page_table (buffer_pool_manager s)) (pid_of s p) \<noteq> None \<or>
           free_list (buffer_pool_manager s) \<noteq> [] \<or> replacer (buffer_pool_manager s) \<noteq> []"
  shows "\<exists>h s'. fetch_node p s = Inr (h, s')"
proof -
  obtain r b' where fp: "fetch_page (pid_of s p) (buffer_pool_manager s) = (r, b')"
    by (cases "fetch_page (pid_of s p) (buffer_pool_manager s)")
  from fetch_page_succeeds[OF assms] fp obtain h where "r = Some h" by auto
  then show ?thesis using fp by (simp add: fetch_node_def pid_of_def)
qed

lemma ix_ok_InrD: "ix_ok r Q \<Longrightarrow> r = Inr (x, s') \<Longrightarrow> Q x s'"
  by (simp add: ix_ok_def pool_exhausted_def)

definition promote_child :: "page_id_t \<Rightarrow> page_id_t \<Rightarrow> (page_id_t \<Rightarrow> 'k IxNode) \<Rightarrow> page_id_t \<Rightarrow> 'k IxNode" where
  "promote_child p c ct =
     (\<lambda>q. if q = c then ((ct(p := (ct p)\<lparr>entries := []\<rparr>)) q)\<lparr>parent := IX_NO_PAGE\<rparr>
          else (ct(p := (ct p)\<lparr>entries := []\<rparr>)) q)"

lemma adjust_root_promote:
  assumes pi: "pool_inv (buffer_pool_manager s)" and hd: "held s h p"
    and int: "\<not> is_leaf (content s p)" and sz: "get_size (content s p) = 1"
    and al: "allocated s (rid_page_no (snd (hd (entries (content s p)))))"
    and fn: "fetch_node (rid_page_no (snd (hd (entries (content s p)))))
               (update_root_page_no (rid_page_no (snd (hd (entries (content s p)))))
                  (put_node h ((content s p)\<lparr>entries := []\<rparr>) s)) = Inr (g, s3)"
  shows "\<exists>s'. adjust_root h s = Inr (True, s') \<and>
      file_hdr s' = (file_hdr s)\<lparr>root_page := rid_page_no (snd (hd (entries (content s p))))\<rparr> \<and>
      content s' = promote_child p (rid_page_no (snd (hd (entries (content s p))))) (content s) \<and>
      pins s' = pins s \<and> pool_inv (buffer_pool_manager s') \<and> next_page s' = next_page s \<and>
      ih_fd s' = ih_fd s \<and> binary_search s' = binary_search s \<and>
      (\<forall>g q. held s g q \<longrightarrow> held s' g q) \<and>
      page_dirty (buffer_pool_manager s') (pid_of s (rid_page_no (snd (hd (entries (content s p))))))"
proof -
  let ?n = "content s p"
  let ?c = "rid_page_no (snd (hd (entries ?n)))"
  let ?r = "?n\<lparr>entries := []\<rparr>"
  let ?s1 = "put_node h ?r s"
  let ?s2 = "update_root_page_no ?c ?s1"
  note N = held_node[OF pi hd]
  obtain e where es: "entries ?n = [e]" using sz by (cases "entries ?n") (auto simp: get_size_def)
  have rr: "remove_and_return_only_child ?n = Inr (?c, ?r)"
    using es by (simp add: remove_and_return_only_child_def value_at_def get_rid_def get_size_def erase_pair_def)
  note U1 = update_node_spec[OF pi hd, where f="\<lambda>_. ?r", folded put_node_def]
  have pi2: "pool_inv (buffer_pool_manager ?s2)" using U1(1) by (simp add: update_root_page_no_def)
  have al2: "allocated ?s2 ?c" using al U1(3) by (simp add: update_root_page_no_def allocated_def)
  note F = ix_ok_InrD[OF fetch_node_ok[OF pi2 al2] fn]
  have hg: "held s3 g ?c" using F by simp
  have pi3: "pool_inv (buffer_pool_manager s3)" using F by simp
  let ?s4 = "update_node g (\<lambda>n. n\<lparr>parent := IX_NO_PAGE\<rparr>) s3"
  note U4 = update_node_spec[OF pi3 hg, where f="\<lambda>n. n\<lparr>parent := IX_NO_PAGE\<rparr>"]
  note U5 = unpin_spec[OF U4(1) U4(6)[OF hg], where d=True, simplified]
  let ?s5 = "snd (unpin g True ?s4)"
  have r: "adjust_root h s = Inr (True, ?s5)"
    using int sz N(1) rr fn by (simp add: adjust_root_def ix_bind_def Let_def)
  have hdr3: "file_hdr s3 = (file_hdr s)\<lparr>root_page := ?c\<rparr>" "ih_fd s3 = ih_fd s" "binary_search s3 = binary_search s"
    using F by (simp_all add: same_hdr_def update_root_page_no_def)
  have pid: "pid_of s3 = pid_of s" "pid_of ?s4 = pid_of s" using hdr3(2) by (simp_all add: pid_of_def fun_eq_iff)
  have c3: "content s3 q = (if q = p then ?r else content s q)" for q
    using F U1(4)[of q] by (simp add: update_root_page_no_def)
  have p3: "pins s3 q = pins s q + (if q = pid_of s ?c then 1 else 0)" for q
    using F U1(5)[of q] by (simp add: update_root_page_no_def pid_of_def)
  show ?thesis
  proof (intro exI conjI allI impI)
    show "adjust_root h s = Inr (True, ?s5)" by (rule r)
    show "file_hdr ?s5 = (file_hdr s)\<lparr>root_page := ?c\<rparr>" using hdr3 by simp
    show "ih_fd ?s5 = ih_fd s" "binary_search ?s5 = binary_search s" using hdr3 by simp_all
    show "content ?s5 = promote_child p ?c (content s)"
      using U5(5) U4(4) c3 by (auto simp: fun_eq_iff promote_child_def)
    show "pins ?s5 = pins s" using U5(6) U4(5) p3 pid by (auto simp: fun_eq_iff)
    show "pool_inv (buffer_pool_manager ?s5)" by (rule U5(2))
    show "next_page ?s5 = next_page s" using U5(4) U4(3) F U1(3) by (simp add: update_root_page_no_def)
    show "held ?s5 g' q" if "held s g' q" for g' q
    proof -
      have 1: "held ?s2 g' q" using U1(6)[OF that] by (simp add: update_root_page_no_def)
      have 2: "held s3 g' q" using F 1 by blast
      have 3: "held ?s4 g' q" using U4(6)[OF 2] .
      show ?thesis
      proof (cases "g' = g")
        case False
        then show ?thesis using U5(7)[OF 3] by simp
      next
        case True
        have "held ?s2 g q" using 1 True by simp
        then have "0 < pin_count (pages (buffer_pool_manager ?s2) ! g)" by (simp add: held_def)
        have qc: "q = ?c" using 2 hg True by (auto simp: held_def pid_of_def)
        have "pins ?s2 (pid_of ?s2 q) = pin_count (pages (buffer_pool_manager ?s2) ! g)"
          using held_node(4)[OF pi2] 1 True by simp
        moreover have "pins s3 (pid_of s3 q) = pin_count (pages (buffer_pool_manager s3) ! g)"
          using held_node(4)[OF pi3] 2 True by simp
        moreover have "pins s3 (pid_of s3 q) = pins ?s2 (pid_of ?s2 q) + 1"
          using F qc by (simp add: pid_of_def same_hdr_def)
        ultimately have "1 < pin_count (pages (buffer_pool_manager s3) ! g)"
          using \<open>0 < pin_count (pages (buffer_pool_manager ?s2) ! g)\<close> by simp
        then have "1 < pin_count (pages (buffer_pool_manager ?s4) ! g)"
          by (simp add: update_node_def nth_list_update_gen)
        from U5(8)[OF this] show ?thesis using True qc by simp
      qed
    qed
    show "page_dirty (buffer_pool_manager ?s5) (pid_of s ?c)" using U5(11) pid by simp
  qed
qed


lemma put_node_pool [simp]:
  "page_table (buffer_pool_manager (put_node h n s)) = page_table (buffer_pool_manager s)"
  "free_list (buffer_pool_manager (put_node h n s)) = free_list (buffer_pool_manager s)"
  "replacer (buffer_pool_manager (put_node h n s)) = replacer (buffer_pool_manager s)"
  "page_table (buffer_pool_manager (update_node h f s)) = page_table (buffer_pool_manager s)"
  "free_list (buffer_pool_manager (update_node h f s)) = free_list (buffer_pool_manager s)"
  "replacer (buffer_pool_manager (update_node h f s)) = replacer (buffer_pool_manager s)"
  by (simp_all add: put_node_def update_node_def)

definition ex_root_disk :: "int IxNode DiskManager" where
  "ex_root_disk =
     \<lparr>disk_pages = (\<lambda>pid.
        if page_no pid = 2 then \<lparr>is_leaf = False, parent = IX_NO_PAGE, prev_leaf = IX_NO_PAGE,
               next_leaf = IX_NO_PAGE, entries = [(10, \<lparr>rid_page_no = 3, rid_slot_no = 0\<rparr>)]\<rparr>
        else if page_no pid = 3 then \<lparr>is_leaf = True, parent = 2, prev_leaf = IX_LEAF_HEADER_PAGE,
               next_leaf = IX_LEAF_HEADER_PAGE, entries = [(10, ex_rid 10), (20, ex_rid 20)]\<rparr>
        else if page_no pid = 4 then \<lparr>is_leaf = True, parent = IX_NO_PAGE, prev_leaf = IX_LEAF_HEADER_PAGE,
               next_leaf = IX_LEAF_HEADER_PAGE, entries = []\<rparr>
        else 0),
      fd2pageno = (\<lambda>_. 5)\<rparr>"

definition ex_root_index :: "int IxIndexHandle" where
  "ex_root_index =
     \<lparr>file_hdr = \<lparr>root_page = 2, first_leaf = 3, last_leaf = 3, num_pages = 5, max_size = 4, min_size = 2\<rparr>,
      ih_fd = 0, binary_search = True,
      buffer_pool_manager =
        \<lparr>pages = replicate (Suc (Suc 0)) \<lparr>page_id = ex_pid INVALID_PAGE_ID, data = 0, is_dirty = False, pin_count = 0\<rparr>,
         page_table = [], free_list = [0..<Suc (Suc 0)], replacer = [],
         disk_manager = ex_root_disk\<rparr>\<rparr>"

text \<open>
  C7. \<^verbatim>\<open>adjust_root\<close> applied to a pinned node (the root): if the node is internal with
  exactly one entry, whose child page is allocated and has a frame available, it returns
  true, sets the root page number to that child and clears the child's parent pointer
  (the old root loses its entry, nothing else changes, all pin counts are restored); if
  the node is a leaf with no keys it returns true and sets the root page number, the first
  leaf and the last leaf to \<open>IX_NO_PAGE\<close>, changing nothing else; in every other case it
  returns false and the state is unchanged.
\<close>

theorem adjust_root_correct:
  assumes "pool_inv (buffer_pool_manager s)" and "held s h p"
  shows "(\<not> is_leaf (content s p) \<and> get_size (content s p) = 1 \<and>
          allocated s (rid_page_no (snd (hd (entries (content s p))))) \<and>
          (map_of (page_table (buffer_pool_manager s))
              (pid_of s (rid_page_no (snd (hd (entries (content s p)))))) \<noteq> None \<or>
           free_list (buffer_pool_manager s) \<noteq> [] \<or> replacer (buffer_pool_manager s) \<noteq> []) \<longrightarrow>
          (\<exists>s'. adjust_root h s = Inr (True, s') \<and>
             file_hdr s' = (file_hdr s)\<lparr>root_page := rid_page_no (snd (hd (entries (content s p))))\<rparr> \<and>
             content s' = promote_child p (rid_page_no (snd (hd (entries (content s p))))) (content s) \<and>
             parent (content s' (rid_page_no (snd (hd (entries (content s p)))))) = IX_NO_PAGE \<and>
             pins s' = pins s)) \<and>
         (is_leaf (content s p) \<and> get_size (content s p) = 0 \<longrightarrow>
            adjust_root h s =
              Inr (True, s\<lparr>file_hdr := (file_hdr s)\<lparr>root_page := IX_NO_PAGE, first_leaf := IX_NO_PAGE,
                                                   last_leaf := IX_NO_PAGE\<rparr>\<rparr>)) \<and>
         (\<not> (\<not> is_leaf (content s p) \<and> get_size (content s p) = 1) \<and>
          \<not> (is_leaf (content s p) \<and> get_size (content s p) = 0) \<longrightarrow>
            adjust_root h s = Inr (False, s))"
proof -
  let ?n = "content s p"
  let ?c = "rid_page_no (snd (hd (entries ?n)))"
  note N = held_node[OF assms]
  have a: "\<exists>s'. adjust_root h s = Inr (True, s') \<and>
             file_hdr s' = (file_hdr s)\<lparr>root_page := ?c\<rparr> \<and>
             content s' = promote_child p ?c (content s) \<and>
             parent (content s' ?c) = IX_NO_PAGE \<and> pins s' = pins s"
    if h: "\<not> is_leaf ?n" "get_size ?n = 1" "allocated s ?c"
      "map_of (page_table (buffer_pool_manager s)) (pid_of s ?c) \<noteq> None \<or>
       free_list (buffer_pool_manager s) \<noteq> [] \<or> replacer (buffer_pool_manager s) \<noteq> []"
  proof -
    have "\<exists>g s3. fetch_node ?c (update_root_page_no ?c (put_node h (?n\<lparr>entries := []\<rparr>) s)) = Inr (g, s3)"
      by (rule fetch_node_avail) (use h(4) in \<open>simp add: update_root_page_no_def\<close>)
    then obtain g s3 where
      "fetch_node ?c (update_root_page_no ?c (put_node h (?n\<lparr>entries := []\<rparr>) s)) = Inr (g, s3)" by blast
    from adjust_root_promote[OF assms h(1,2,3) this] obtain s' where
      s': "adjust_root h s = Inr (True, s')" "file_hdr s' = (file_hdr s)\<lparr>root_page := ?c\<rparr>"
        "content s' = promote_child p ?c (content s)" "pins s' = pins s" by blast
    have "parent (content s' ?c) = IX_NO_PAGE" unfolding s'(3) by (simp add: promote_child_def)
    with s' show ?thesis by blast
  qed
  have b: "adjust_root h s =
      Inr (True, s\<lparr>file_hdr := (file_hdr s)\<lparr>root_page := IX_NO_PAGE, first_leaf := IX_NO_PAGE,
                                           last_leaf := IX_NO_PAGE\<rparr>\<rparr>)"
    if "is_leaf ?n" "get_size ?n = 0"
    using that N(1)
    by (simp add: adjust_root_def set_last_leaf_def set_first_leaf_def update_root_page_no_def)
  have c: "adjust_root h s = Inr (False, s)"
    if "\<not> (\<not> is_leaf ?n \<and> get_size ?n = 1)" "\<not> (is_leaf ?n \<and> get_size ?n = 0)"
    using that N(1) by (auto simp: adjust_root_def)
  show ?thesis using a b c by blast
qed

lemma ex_root_index_facts:
  "pool_inv (buffer_pool_manager ex_root_index)"
  "free_list (buffer_pool_manager ex_root_index) \<noteq> []"
  "allocated ex_root_index 2" "allocated ex_root_index 3" "allocated ex_root_index 4"
  "content ex_root_index 2 = \<lparr>is_leaf = False, parent = IX_NO_PAGE, prev_leaf = IX_NO_PAGE,
               next_leaf = IX_NO_PAGE, entries = [(10, \<lparr>rid_page_no = 3, rid_slot_no = 0\<rparr>)]\<rparr>"
  "content ex_root_index 3 = \<lparr>is_leaf = True, parent = 2, prev_leaf = IX_LEAF_HEADER_PAGE,
               next_leaf = IX_LEAF_HEADER_PAGE, entries = [(10, ex_rid 10), (20, ex_rid 20)]\<rparr>"
  "content ex_root_index 4 = \<lparr>is_leaf = True, parent = IX_NO_PAGE, prev_leaf = IX_LEAF_HEADER_PAGE,
               next_leaf = IX_LEAF_HEADER_PAGE, entries = []\<rparr>"
proof -
  show "pool_inv (buffer_pool_manager ex_root_index)"
    by (rule fresh_pool_pool_inv)
      (simp_all add: ex_root_index_def fresh_pool_def ex_pid_def ex_root_disk_def)
qed (simp_all add: allocated_def next_page_def content_def page_content_def pid_of_def
      ex_root_index_def ex_root_disk_def)

theorem adjust_root_correct_witness:
  "\<exists>h2 s2 h3 s3 h4 s4 s'.
     fetch_node 2 ex_root_index = Inr (h2, s2) \<and> adjust_root h2 s2 = Inr (True, s') \<and>
     root_page (file_hdr s') = 3 \<and> parent (content s' 3) = IX_NO_PAGE \<and>
     fetch_node 3 ex_root_index = Inr (h3, s3) \<and> adjust_root h3 s3 = Inr (False, s3) \<and>
     fetch_node 4 ex_root_index = Inr (h4, s4) \<and>
     adjust_root h4 s4 = Inr (True, s4\<lparr>file_hdr := (file_hdr s4)\<lparr>root_page := IX_NO_PAGE,
                                   first_leaf := IX_NO_PAGE, last_leaf := IX_NO_PAGE\<rparr>\<rparr>)"
proof -
  note E = ex_root_index_facts
  have av: "\<And>p. map_of (page_table (buffer_pool_manager ex_root_index)) (pid_of ex_root_index p) \<noteq> None \<or>
           free_list (buffer_pool_manager ex_root_index) \<noteq> [] \<or> replacer (buffer_pool_manager ex_root_index) \<noteq> []"
    using E(2) by simp
  obtain h2 s2 where f2: "fetch_node 2 ex_root_index = Inr (h2, s2)" using fetch_node_avail[OF av] by blast
  obtain h3 s3 where f3: "fetch_node 3 ex_root_index = Inr (h3, s3)" using fetch_node_avail[OF av] by blast
  obtain h4 s4 where f4: "fetch_node 4 ex_root_index = Inr (h4, s4)" using fetch_node_avail[OF av] by blast
  note F2 = ix_ok_InrD[OF fetch_node_ok[OF E(1) E(3)] f2]
  note F3 = ix_ok_InrD[OF fetch_node_ok[OF E(1) E(4)] f3]
  note F4 = ix_ok_InrD[OF fetch_node_ok[OF E(1) E(5)] f4]
  have p2: "pool_inv (buffer_pool_manager s2)" "held s2 h2 2" "content s2 = content ex_root_index"
    "next_page s2 = next_page ex_root_index" "file_hdr s2 = file_hdr ex_root_index"
    using F2 by (auto simp: same_hdr_def)
  have p3: "pool_inv (buffer_pool_manager s3)" "held s3 h3 3" "content s3 = content ex_root_index"
    using F3 by auto
  have p4: "pool_inv (buffer_pool_manager s4)" "held s4 h4 4" "content s4 = content ex_root_index"
    using F4 by auto
  have fl: "free_list (buffer_pool_manager s2) \<noteq> [] \<or> replacer (buffer_pool_manager s2) \<noteq> []"
    using f2 by (auto simp: fetch_node_def fetch_page_def find_victim_page_def update_page_def Let_def
        ex_root_index_def split: prod.splits option.splits if_splits)
  have a3: "allocated s2 3" using E(4) p2(4) by (simp add: allocated_def)
  obtain s' where s': "adjust_root h2 s2 = Inr (True, s')" "file_hdr s' = (file_hdr s2)\<lparr>root_page := 3\<rparr>"
     "parent (content s' 3) = IX_NO_PAGE"
    using adjust_root_correct[OF p2(1,2)] fl a3 by (auto simp: p2(3) E(6) get_size_def)
  have r3: "adjust_root h3 s3 = Inr (False, s3)"
    using adjust_root_correct[OF p3(1,2)] by (simp add: p3(3) E(7) get_size_def)
  have r4: "adjust_root h4 s4 = Inr (True, s4\<lparr>file_hdr := (file_hdr s4)\<lparr>root_page := IX_NO_PAGE,
                                   first_leaf := IX_NO_PAGE, last_leaf := IX_NO_PAGE\<rparr>\<rparr>)"
    using adjust_root_correct[OF p4(1,2)] by (simp add: p4(3) E(8) get_size_def)
  show ?thesis using f2 f3 f4 s' r3 r4 by auto
qed

subsection \<open>split\<close>

text \<open>Fetching a page, changing its node and unpinning it dirty.\<close>

lemma touch_spec:
  assumes pi: "pool_inv (buffer_pool_manager s)" and al: "allocated s c"
    and fn: "fetch_node c s = Inr (g, s1)"
  shows "held s1 g c \<and> pool_inv (buffer_pool_manager s1) \<and>
    (\<forall>h q. held s h q \<longrightarrow> node_of s1 h = node_of s h \<and> get_page_no s1 h = q \<and> held s1 h q) \<and>
    node_of s1 g = content s c \<and> get_page_no s1 g = c \<and>
    file_hdr s1 = file_hdr s \<and> ih_fd s1 = ih_fd s \<and> binary_search s1 = binary_search s \<and>
    content s1 = content s \<and>
    pool_inv (buffer_pool_manager (snd (unpin g True (update_node g f s1)))) \<and>
    content (snd (unpin g True (update_node g f s1))) = (content s)(c := f (content s c)) \<and>
    pins (snd (unpin g True (update_node g f s1))) = pins s \<and>
    file_hdr (snd (unpin g True (update_node g f s1))) = file_hdr s \<and>
    ih_fd (snd (unpin g True (update_node g f s1))) = ih_fd s \<and>
    binary_search (snd (unpin g True (update_node g f s1))) = binary_search s \<and>
    next_page (snd (unpin g True (update_node g f s1))) = next_page s \<and>
    (\<forall>h q. held s h q \<longrightarrow> held (snd (unpin g True (update_node g f s1))) h q) \<and>
    (\<forall>h. h \<noteq> g \<longrightarrow> node_of (snd (unpin g True (update_node g f s1))) h = node_of s1 h)"
proof -
  note F = ix_ok_InrD[OF fetch_node_ok[OF pi al] fn]
  have hg: "held s1 g c" and pi1: "pool_inv (buffer_pool_manager s1)" using F by simp_all
  have hdr1: "file_hdr s1 = file_hdr s" "ih_fd s1 = ih_fd s" "binary_search s1 = binary_search s"
    using F by (simp_all add: same_hdr_def)
  have c1: "content s1 = content s" using F by (simp add: fun_eq_iff)
  have ng: "node_of s1 g = content s c" using held_node(1)[OF pi1 hg] c1 by simp
  have pg: "get_page_no s1 g = c" using held_node(2)[OF pi1 hg] .
  have h1: "node_of s1 h = node_of s h \<and> get_page_no s1 h = q \<and> held s1 h q" if "held s h q" for h q
  proof -
    have "held s1 h q" "node_of s1 h = node_of s h" using F that by blast+
    then show ?thesis using held_node(2)[OF pi1] by simp
  qed
  let ?s2 = "update_node g f s1"
  let ?s3 = "snd (unpin g True ?s2)"
  note U2 = update_node_spec[OF pi1 hg, where f=f]
  note U3 = unpin_spec[OF U2(1) U2(6)[OF hg], where d=True, simplified]
  have pid: "pid_of s1 = pid_of s" using hdr1(2) by (simp add: pid_of_def fun_eq_iff)
  have r1: "pool_inv (buffer_pool_manager ?s3)" by (rule U3(2))
  have r2: "content ?s3 = (content s)(c := f (content s c))"
    using U3(5) U2(4) c1 by (auto simp: fun_eq_iff)
  have r3: "pins ?s3 = pins s" using U3(6) U2(5) F pid by (auto simp: fun_eq_iff)
  have r4: "file_hdr ?s3 = file_hdr s" "ih_fd ?s3 = ih_fd s" "binary_search ?s3 = binary_search s"
    using hdr1 by simp_all
  have r5: "next_page ?s3 = next_page s" using U3(4) U2(3) F by simp
  have r6: "node_of ?s3 h = node_of s1 h" if "h \<noteq> g" for h using U3(9) U2(8) that by simp
  have r7: "held ?s3 h q" if "held s h q" for h q
  proof -
    have 2: "held s1 h q" using h1[OF that] by simp
    have 3: "held ?s2 h q" using U2(6)[OF 2] .
    show ?thesis
    proof (cases "h = g")
      case False
      then show ?thesis using U3(7)[OF 3] by simp
    next
      case True
      have p0: "0 < pin_count (pages (buffer_pool_manager s) ! g)" using that True by (simp add: held_def)
      have qc: "q = c" using 2 hg True by (auto simp: held_def pid_of_def)
      have "pins s (pid_of s q) = pin_count (pages (buffer_pool_manager s) ! g)"
        using held_node(4)[OF pi] that True by simp
      moreover have "pins s1 (pid_of s1 q) = pin_count (pages (buffer_pool_manager s1) ! g)"
        using held_node(4)[OF pi1] 2 True by simp
      moreover have "pins s1 (pid_of s1 q) = pins s (pid_of s q) + 1"
        using F qc pid by simp
      ultimately have "1 < pin_count (pages (buffer_pool_manager s1) ! g)" using p0 by simp
      then have "1 < pin_count (pages (buffer_pool_manager ?s2) ! g)"
        by (simp add: update_node_def nth_list_update_gen)
      from U3(8)[OF this] show ?thesis using True qc by simp
    qed
  qed
  show ?thesis using hg pi1 hdr1 c1 ng pg h1 r1 r2 r3 r4 r5 r6 r7 by blast
qed

definition reparent :: "page_id_t \<Rightarrow> page_id_t set \<Rightarrow> (page_id_t \<Rightarrow> 'k IxNode) \<Rightarrow> page_id_t \<Rightarrow> 'k IxNode" where
  "reparent p cs ct = (\<lambda>q. if q \<in> cs then (ct q)\<lparr>parent := p\<rparr> else ct q)"

lemma reparent_simps [simp]:
  "reparent p {} ct = ct"
  "entries (reparent p cs ct q) = entries (ct q)"
  "is_leaf (reparent p cs ct q) = is_leaf (ct q)"
  "next_leaf (reparent p cs ct q) = next_leaf (ct q)"
  "prev_leaf (reparent p cs ct q) = prev_leaf (ct q)"
  "parent (reparent p cs ct q) = (if q \<in> cs then p else parent (ct q))"
  "(reparent p cs ct)(c := (reparent p cs ct c)\<lparr>parent := p\<rparr>) = reparent p (insert c cs) ct"
  by (auto simp: reparent_def fun_eq_iff)

definition child_at :: "'k IxNode \<Rightarrow> int \<Rightarrow> page_id_t" where
  "child_at n i = rid_page_no (snd (entries n ! nat i))"

lemma value_at_child_at: "0 \<le> i \<Longrightarrow> i < get_size n \<Longrightarrow> value_at n i = Some (child_at n i)"
  by (simp add: value_at_def get_rid_def child_at_def)

lemma maintain_child_ok:
  assumes pi: "pool_inv (buffer_pool_manager s)" and hd: "held s h p"
    and int: "\<not> is_leaf (content s p)" and i: "0 \<le> i" "i < get_size (content s p)"
    and al: "allocated s (child_at (content s p) i)"
  shows "ix_ok (maintain_child h i s) (\<lambda>_ s'.
      pool_inv (buffer_pool_manager s') \<and>
      content s' = (content s)(child_at (content s p) i := (content s (child_at (content s p) i))\<lparr>parent := p\<rparr>) \<and>
      pins s' = pins s \<and> file_hdr s' = file_hdr s \<and> ih_fd s' = ih_fd s \<and>
      binary_search s' = binary_search s \<and> next_page s' = next_page s \<and>
      (\<forall>g q. held s g q \<longrightarrow> held s' g q))"
proof -
  let ?c = "child_at (content s p) i"
  note N = held_node[OF pi hd]
  have v: "value_at (node_of s h) i = Some ?c" using value_at_child_at[OF i] N(1) by simp
  show ?thesis
  proof (cases "fetch_node ?c s")
    case (Inl e)
    with fetch_node_ok[OF pi al] have "e = AssertFetchNode \<or> e = NullPage"
      by (simp add: ix_ok_def pool_exhausted_def)
    then show ?thesis using Inl int N(1) v
      by (auto simp: maintain_child_def ix_bind_def ix_ok_def pool_exhausted_def)
  next
    case (Inr a)
    obtain g s1 where a: "a = (g, s1)" by (cases a)
    note T = touch_spec[OF pi al Inr[unfolded a], where f="\<lambda>n. n\<lparr>parent := p\<rparr>"]
    have pn: "get_page_no s1 h = p" using T hd by blast
    have r: "maintain_child h i s = Inr ((), snd (unpin g True (update_node g (\<lambda>n. n\<lparr>parent := p\<rparr>) s1)))"
      using int N(1) v Inr a pn by (simp add: maintain_child_def ix_bind_def Let_def)
    show ?thesis
      by (rule ix_okI[OF r]) (use T in \<open>simp\<close>)
  qed
qed

lemma reparent_upd:
  "reparent p A (ct(c := (ct c)\<lparr>parent := p\<rparr>)) = reparent p (insert c A) ct"
  by (auto simp: reparent_def fun_eq_iff)

lemma child_at_cong:
  "entries n' = entries n \<Longrightarrow> child_at n' i = child_at n i"
  by (simp add: child_at_def)

lemma allocated_cong: "next_page s' = next_page s \<Longrightarrow> allocated s' = allocated s"
  by (simp add: allocated_def fun_eq_iff)

lemma maintain_children_ok:
  assumes "pool_inv (buffer_pool_manager s)" "held s h p" "\<not> is_leaf (content s p)"
    "\<forall>i \<in> set js. 0 \<le> i \<and> i < get_size (content s p) \<and> allocated s (child_at (content s p) i)"
  shows "ix_ok (maintain_children h js s) (\<lambda>_ s'.
      pool_inv (buffer_pool_manager s') \<and>
      content s' = reparent p (child_at (content s p) ` set js) (content s) \<and>
      pins s' = pins s \<and> file_hdr s' = file_hdr s \<and> ih_fd s' = ih_fd s \<and>
      binary_search s' = binary_search s \<and> next_page s' = next_page s \<and>
      (\<forall>g q. held s g q \<longrightarrow> held s' g q))"
  using assms
proof (induction js arbitrary: s)
  case Nil
  show ?case by (rule ix_okI[where x="()" and s'=s]) (use Nil.prems in simp_all)
next
  case (Cons i js)
  let ?n = "content s p"
  let ?c = "child_at ?n i"
  have i: "0 \<le> i" "i < get_size ?n" "allocated s ?c" using Cons.prems(4) by simp_all
  have "ix_ok (ix_bind (maintain_child h i s) (\<lambda>_ s1. maintain_children h js s1)) (\<lambda>_ s'.
      pool_inv (buffer_pool_manager s') \<and>
      content s' = reparent p (child_at ?n ` set (i # js)) (content s) \<and>
      pins s' = pins s \<and> file_hdr s' = file_hdr s \<and> ih_fd s' = ih_fd s \<and>
      binary_search s' = binary_search s \<and> next_page s' = next_page s \<and>
      (\<forall>g q. held s g q \<longrightarrow> held s' g q))"
  proof (rule ix_ok_bind[OF maintain_child_ok[OF Cons.prems(1,2,3) i]])
    fix x s1
    assume a: "pool_inv (buffer_pool_manager s1) \<and>
      content s1 = (content s)(?c := (content s ?c)\<lparr>parent := p\<rparr>) \<and>
      pins s1 = pins s \<and> file_hdr s1 = file_hdr s \<and> ih_fd s1 = ih_fd s \<and>
      binary_search s1 = binary_search s \<and> next_page s1 = next_page s \<and>
      (\<forall>g q. held s g q \<longrightarrow> held s1 g q)"
    then have c1: "content s1 = (content s)(?c := (content s ?c)\<lparr>parent := p\<rparr>)" by simp
    have e: "entries (content s1 p) = entries ?n" "is_leaf (content s1 p) = is_leaf ?n"
      unfolding c1 by simp_all
    have sz: "get_size (content s1 p) = get_size ?n" using e by (simp add: get_size_def)
    have ch: "child_at (content s1 p) = child_at ?n" using e by (simp add: child_at_def fun_eq_iff)
    have al: "allocated s1 = allocated s" by (rule allocated_cong) (use a in simp)
    have p4: "\<forall>i \<in> set js. 0 \<le> i \<and> i < get_size (content s1 p) \<and> allocated s1 (child_at (content s1 p) i)"
      using Cons.prems(4) sz ch al by simp
    have h1: "held s1 h p" using a Cons.prems(2) by blast
    have nl: "\<not> is_leaf (content s1 p)" using e Cons.prems(3) by simp
    have a1: "pool_inv (buffer_pool_manager s1)" using a by simp
    show "ix_ok (maintain_children h js s1) (\<lambda>_ s'.
      pool_inv (buffer_pool_manager s') \<and>
      content s' = reparent p (child_at ?n ` set (i # js)) (content s) \<and>
      pins s' = pins s \<and> file_hdr s' = file_hdr s \<and> ih_fd s' = ih_fd s \<and>
      binary_search s' = binary_search s \<and> next_page s' = next_page s \<and>
      (\<forall>g q. held s g q \<longrightarrow> held s' g q))"
    proof (rule ix_ok_mono[OF Cons.IH[OF a1 h1 nl p4]])
      fix y s'
      assume b: "pool_inv (buffer_pool_manager s') \<and>
        content s' = reparent p (child_at (content s1 p) ` set js) (content s1) \<and>
        pins s' = pins s1 \<and> file_hdr s' = file_hdr s1 \<and> ih_fd s' = ih_fd s1 \<and>
        binary_search s' = binary_search s1 \<and> next_page s' = next_page s1 \<and>
        (\<forall>g q. held s1 g q \<longrightarrow> held s' g q)"
      have "content s' = reparent p (child_at ?n ` set js) ((content s)(?c := (content s ?c)\<lparr>parent := p\<rparr>))"
        using b ch c1 by simp
      then have "content s' = reparent p (child_at ?n ` set (i # js)) (content s)"
        by (simp only: reparent_upd list.set image_insert)
      moreover have "\<forall>g q. held s g q \<longrightarrow> held s' g q" using a b by blast
      ultimately show "pool_inv (buffer_pool_manager s') \<and>
        content s' = reparent p (child_at ?n ` set (i # js)) (content s) \<and>
        pins s' = pins s \<and> file_hdr s' = file_hdr s \<and> ih_fd s' = ih_fd s \<and>
        binary_search s' = binary_search s \<and> next_page s' = next_page s \<and>
        (\<forall>g q. held s g q \<longrightarrow> held s' g q)"
        using a b by simp
    qed
  qed
  then show ?case by simp
qed

lemma update_node_reads [simp]:
  "get_page_id (update_node h f s) = get_page_id s"
  "get_page_no (update_node h f s) = get_page_no s"
  "get_page_id (put_node h n s) = get_page_id s"
  "get_page_no (put_node h n s) = get_page_no s"
  "length (pages (buffer_pool_manager (update_node h f s))) = length (pages (buffer_pool_manager s))"
  "length (pages (buffer_pool_manager (put_node h n s))) = length (pages (buffer_pool_manager s))"
  "next_page (update_node h f s) = next_page s"
  "next_page (put_node h n s) = next_page s"
  "allocated (update_node h f s) = allocated s"
  "allocated (put_node h n s) = allocated s"
  by (auto simp: fun_eq_iff get_page_id_def get_page_no_def update_node_def put_node_def
      nth_list_update_gen next_page_def allocated_def)

lemma node_of_update_node:
  "h < length (pages (buffer_pool_manager s)) \<Longrightarrow>
   node_of (update_node h f s) g = (if g = h then f (node_of s h) else node_of s g)"
  by (simp add: node_of_def update_node_def)

lemma node_of_put_node:
  "h < length (pages (buffer_pool_manager s)) \<Longrightarrow>
   node_of (put_node h n s) g = (if g = h then n else node_of s g)"
  by (simp add: put_node_def node_of_update_node)

definition same_but :: "'k IxIndexHandle \<Rightarrow> 'k IxIndexHandle \<Rightarrow> (page_id_t \<Rightarrow> 'k IxNode) \<Rightarrow> bool" where
  "same_but s s' ct \<longleftrightarrow>
     pool_inv (buffer_pool_manager s') \<and> content s' = ct \<and> pins s' = pins s \<and>
     file_hdr s' = file_hdr s \<and> ih_fd s' = ih_fd s \<and> binary_search s' = binary_search s \<and>
     next_page s' = next_page s \<and> (\<forall>g q. held s g q \<longrightarrow> held s' g q)"

lemma same_but_refl: "pool_inv (buffer_pool_manager s) \<Longrightarrow> same_but s s (content s)"
  by (simp add: same_but_def)

lemma same_but_trans: "same_but s s1 c1 \<Longrightarrow> same_but s1 s2 c2 \<Longrightarrow> same_but s s2 c2"
  by (simp add: same_but_def)

lemma same_butD:
  assumes "same_but s s' ct"
  shows "pool_inv (buffer_pool_manager s')" "content s' = ct" "pins s' = pins s"
    "file_hdr s' = file_hdr s" "ih_fd s' = ih_fd s" "binary_search s' = binary_search s"
    "next_page s' = next_page s" "\<And>g q. held s g q \<Longrightarrow> held s' g q"
    "pid_of s' = pid_of s" "allocated s' = allocated s"
  using assms by (auto simp: same_but_def pid_of_def allocated_def fun_eq_iff)

lemma same_but_update_node:
  assumes "pool_inv (buffer_pool_manager s)" "held s h p"
  shows "same_but s (update_node h f s) ((content s)(p := f (content s p)))"
  using update_node_spec[OF assms, where f=f]
  by (auto simp: same_but_def fun_eq_iff)

lemma same_but_put_node:
  assumes "pool_inv (buffer_pool_manager s)" "held s h p"
  shows "same_but s (put_node h n s) ((content s)(p := n))"
  unfolding put_node_def by (rule same_but_update_node[OF assms])

lemma same_but_touch:
  assumes "pool_inv (buffer_pool_manager s)" "allocated s c" "fetch_node c s = Inr (g, s1)"
  shows "same_but s (snd (unpin g True (update_node g f s1))) ((content s)(c := f (content s c)))"
  using touch_spec[OF assms, where f=f] by (simp add: same_but_def)

lemma same_but_unpin:
  assumes "pool_inv (buffer_pool_manager s)" "held s h p" "d \<or> clean s h"
  shows "pool_inv (buffer_pool_manager (snd (unpin h d s)))"
    "content (snd (unpin h d s)) = content s"
    "pins (snd (unpin h d s)) = (pins s)(pid_of s p := pins s (pid_of s p) - 1)"
    "next_page (snd (unpin h d s)) = next_page s"
    "\<And>g q. held s g q \<Longrightarrow> g \<noteq> h \<Longrightarrow> held (snd (unpin h d s)) g q"
  using unpin_spec[OF assms] by (auto simp: fun_eq_iff)

lemma held_neq:
  "held s g p \<Longrightarrow> held s h q \<Longrightarrow> p \<noteq> q \<Longrightarrow> g \<noteq> h"
  by (auto simp: held_def pid_of_def)

lemma held_lt: "held s h p \<Longrightarrow> h < length (pages (buffer_pool_manager s))"
  by (simp add: held_def)

lemma held_allocated: "held s h p \<Longrightarrow> allocated s p"
  by (simp add: held_def)

definition split_content ::
  "page_id_t \<Rightarrow> page_id_t \<Rightarrow> (page_id_t \<Rightarrow> 'k IxNode) \<Rightarrow> page_id_t \<Rightarrow> 'k IxNode" where
  "split_content p p' ct =
     (let n = ct p; mid = nat (get_size n div 2);
          right = \<lparr>is_leaf = is_leaf n, parent = parent n,
                   prev_leaf = (if is_leaf n then p else IX_NO_PAGE),
                   next_leaf = (if is_leaf n then next_leaf n else IX_NO_PAGE),
                   entries = drop mid (entries n)\<rparr>;
          left = n\<lparr>entries := take mid (entries n),
                   next_leaf := (if is_leaf n then p' else next_leaf n)\<rparr>;
          base = ct(p := left, p' := right)
      in if is_leaf n then
           (if next_leaf n \<noteq> IX_NO_PAGE
            then base(next_leaf n := (base (next_leaf n))\<lparr>prev_leaf := p'\<rparr>) else base)
         else reparent p' ((\<lambda>e. rid_page_no (snd e)) ` set (drop mid (entries n))) base)"

lemma upto_set_int: "set [0..int m - 1] = int ` {0..<m}"
proof -
  have "set [0..int m - 1] = {0..int m - 1}" by simp
  also have "\<dots> = int ` {0..<m}"
  proof (intro set_eqI iffI)
    fix x assume "x \<in> {0..int m - 1}"
    then have "x = int (nat x)" "nat x \<in> {0..<m}" by auto
    then show "x \<in> int ` {0..<m}" by blast
  qed auto
  finally show ?thesis .
qed

lemma child_at_image:
  "child_at n ` set [0..get_size n - 1] = (\<lambda>e. rid_page_no (snd e)) ` set (entries n)"
proof -
  have "child_at n ` set [0..get_size n - 1] = (\<lambda>i. rid_page_no (snd (entries n ! i))) ` {0..<length (entries n)}"
    unfolding get_size_def upto_set_int by (simp add: image_image child_at_def)
  also have "\<dots> = (\<lambda>e. rid_page_no (snd e)) ` ((\<lambda>i. entries n ! i) ` {0..<length (entries n)})"
    by (simp add: image_image)
  also have "(\<lambda>i. entries n ! i) ` {0..<length (entries n)} = set (entries n)"
    by (rule nth_image[of "length (entries n)" "entries n", simplified])
  finally show ?thesis .
qed

lemma zero_node_update:
  "(0::'k IxNode)\<lparr>is_leaf := a, parent := b, entries := [], prev_leaf := c, next_leaf := d\<rparr> =
   \<lparr>is_leaf = a, parent = b, prev_leaf = c, next_leaf = d, entries = []\<rparr>"
  by (simp add: zero_IxNode_ext_def)

lemma take_drop_all: "int (length xs) = t \<Longrightarrow> take (nat (t - m)) (drop (nat m) xs) = drop (nat m) xs"
  by auto

lemma split_prefix:
  assumes pi: "pool_inv (buffer_pool_manager s)" and hd: "held s h p"
    and cap: "get_size (content s p) - get_size (content s p) div 2 \<le> max_size (file_hdr s)"
    and C: "pool_inv (buffer_pool_manager s1) \<and> held s1 g (next_page s) \<and>
      next_page s1 = next_page s + 1 \<and>
      file_hdr s1 = (file_hdr s)\<lparr>num_pages := num_pages (file_hdr s) + 1\<rparr> \<and>
      ih_fd s1 = ih_fd s \<and> binary_search s1 = binary_search s \<and>
      (\<forall>q. content s1 q = (if q = next_page s then 0 else content s q)) \<and>
      (\<forall>q. pins s1 q = pins s q + (if q = pid_of s (next_page s) then 1 else 0)) \<and>
      pins s (pid_of s (next_page s)) = 0 \<and>
      (\<forall>g' q. held s g' q \<longrightarrow> held s1 g' q \<and> g' \<noteq> g \<and> node_of s1 g' = node_of s g')"
  defines "n \<equiv> content s p" and "p' \<equiv> next_page s"
  defines "mid \<equiv> get_size n div 2"
  defines "right0 \<equiv> \<lparr>is_leaf = is_leaf n, parent = parent n, prev_leaf = IX_NO_PAGE,
                       next_leaf = IX_NO_PAGE, entries = drop (nat mid) (entries n)\<rparr>"
  defines "s4 \<equiv> update_node h (set_size mid)
                  (put_node g right0
                    (update_node g (\<lambda>x. x\<lparr>is_leaf := is_leaf n, parent := parent n, entries := [],
                                         prev_leaf := IX_NO_PAGE, next_leaf := IX_NO_PAGE\<rparr>) s1))"
  shows "same_but s1 s4 ((content s)(p := n\<lparr>entries := take (nat mid) (entries n)\<rparr>, p' := right0))"
    "held s4 h p" "held s4 g p'" "h \<noteq> g" "p \<noteq> p'" "p < p'"
    "node_of s1 h = n"
proof -
  have hh1: "held s1 h p" and gh: "h \<noteq> g" and n1: "node_of s1 h = node_of s h" using C hd by blast+
  have pi1: "pool_inv (buffer_pool_manager s1)" and hg1: "held s1 g p'" using C by (simp_all add: p'_def)
  have plt: "p < p'" using held_allocated[OF hd] by (simp add: allocated_def p'_def)
  have ct1: "content s1 = (content s)(p' := 0)" using C by (auto simp: fun_eq_iff p'_def)
  let ?f = "\<lambda>x. x\<lparr>is_leaf := is_leaf n, parent := parent n, entries := [],
                                         prev_leaf := IX_NO_PAGE, next_leaf := IX_NO_PAGE\<rparr>"
  let ?s2 = "update_node g ?f s1"
  let ?s3 = "put_node g right0 ?s2"
  have S2: "same_but s1 ?s2 ((content s1)(p' := ?f (content s1 p')))"
    by (rule same_but_update_node[OF pi1 hg1])
  note D2 = same_butD[OF S2]
  have S3: "same_but ?s2 ?s3 ((content ?s2)(p' := right0))"
    by (rule same_but_put_node[OF D2(1) D2(8)[OF hg1]])
  note D3 = same_butD[OF S3]
  have h3: "held ?s3 h p" using D3(8) D2(8) hh1 by blast
  have S4: "same_but ?s3 s4 ((content ?s3)(p := set_size mid (content ?s3 p)))"
    unfolding s4_def by (rule same_but_update_node[OF D3(1) h3])
  have "content ?s3 p = content s p" using plt by (simp add: D3(2) D2(2) ct1)
  then have c3p: "content ?s3 p = n" by (simp add: n_def)
  have len: "int (length (entries n)) = get_size n" by (simp add: get_size_def)
  have S14: "same_but s1 s4 ((content ?s3)(p := set_size mid (content ?s3 p)))"
    by (rule same_but_trans[OF same_but_trans[OF S2 S3] S4])
  have "(content ?s3)(p := set_size mid (content ?s3 p)) =
        (content s)(p := n\<lparr>entries := take (nat mid) (entries n)\<rparr>, p' := right0)"
    using plt by (auto simp: c3p fun_eq_iff D3(2) D2(2) ct1 set_size_def n_def[symmetric])
  with S14 show "same_but s1 s4 ((content s)(p := n\<lparr>entries := take (nat mid) (entries n)\<rparr>, p' := right0))"
    by simp
  note D4 = same_butD[OF S14]
  show "held s4 h p" using D4(8)[OF hh1] .
  show "held s4 g p'" using D4(8)[OF hg1] .
  show "h \<noteq> g" by (rule gh)
  show "p \<noteq> p'" "p < p'" using plt by simp_all
  show "node_of s1 h = n" using n1 held_node(1)[OF pi hd] by (simp add: n_def)
qed

lemma set_size_simps [simp]:
  "is_leaf (set_size m n) = is_leaf n"
  "parent (set_size m n) = parent n"
  "next_leaf (set_size m n) = next_leaf n"
  "prev_leaf (set_size m n) = prev_leaf n"
  "entries (set_size m n) = take (nat m) (entries n)"
  by (simp_all add: set_size_def)

lemma split_eval:
  assumes pi: "pool_inv (buffer_pool_manager s)" and hd: "held s h p"
    and cap: "get_size (content s p) - get_size (content s p) div 2 \<le> max_size (file_hdr s)"
    and C: "pool_inv (buffer_pool_manager s1) \<and> held s1 g (next_page s) \<and>
      next_page s1 = next_page s + 1 \<and>
      file_hdr s1 = (file_hdr s)\<lparr>num_pages := num_pages (file_hdr s) + 1\<rparr> \<and>
      ih_fd s1 = ih_fd s \<and> binary_search s1 = binary_search s \<and>
      (\<forall>q. content s1 q = (if q = next_page s then 0 else content s q)) \<and>
      (\<forall>q. pins s1 q = pins s q + (if q = pid_of s (next_page s) then 1 else 0)) \<and>
      pins s (pid_of s (next_page s)) = 0 \<and>
      (\<forall>g' q. held s g' q \<longrightarrow> held s1 g' q \<and> g' \<noteq> g \<and> node_of s1 g' = node_of s g')"
  defines "n \<equiv> content s p" and "p' \<equiv> next_page s"
  defines "mid \<equiv> get_size n div 2"
  defines "right0 \<equiv> \<lparr>is_leaf = is_leaf n, parent = parent n, prev_leaf = IX_NO_PAGE,
                       next_leaf = IX_NO_PAGE, entries = drop (nat mid) (entries n)\<rparr>"
  defines "s4 \<equiv> update_node h (set_size mid)
                  (put_node g right0
                    (update_node g (\<lambda>x. x\<lparr>is_leaf := is_leaf n, parent := parent n, entries := [],
                                         prev_leaf := IX_NO_PAGE, next_leaf := IX_NO_PAGE\<rparr>) s1))"
  defines "s7 \<equiv> update_node h (\<lambda>x. x\<lparr>next_leaf := p'\<rparr>)
                  (update_node g (\<lambda>x. x\<lparr>next_leaf := next_leaf n\<rparr>)
                    (update_node g (\<lambda>x. x\<lparr>prev_leaf := p\<rparr>) s4))"
  shows "(let s2 = update_node g (\<lambda>n. n\<lparr>is_leaf := is_leaf (node_of s1 h),
                  parent := parent (node_of s1 h), entries := [],
                  prev_leaf := IX_NO_PAGE, next_leaf := IX_NO_PAGE\<rparr>) s1;
           total = get_size (node_of s2 h);
           mid = total div 2;
           move_num = total - mid;
           moved = take (nat move_num) (drop (nat mid) (entries (node_of s2 h)))
       in case insert_pairs (max_size (file_hdr s2)) 0 moved (node_of s2 g) of
            Inl e \<Rightarrow> Inl e
          | Inr nn \<Rightarrow>
             (let s3 = put_node g nn s2;
                  s4 = update_node h (set_size mid) s3
              in if is_leaf (node_of s4 g) then
                   (let s5 = update_node g (\<lambda>n. n\<lparr>prev_leaf := get_page_no s4 h\<rparr>) s4;
                        s6 = update_node g (\<lambda>n. n\<lparr>next_leaf := next_leaf (node_of s5 h)\<rparr>) s5;
                        s7 = update_node h (\<lambda>n. n\<lparr>next_leaf := get_page_no s6 g\<rparr>) s6
                    in ix_bind
                         (if next_leaf (node_of s7 g) \<noteq> IX_NO_PAGE then
                            ix_bind (fetch_node (next_leaf (node_of s7 g)) s7) (\<lambda>next s8.
                              Inr ((), snd (unpin next True
                                (update_node next (\<lambda>n. n\<lparr>prev_leaf := get_page_no s8 g\<rparr>) s8))))
                          else Inr ((), s7))
                         (\<lambda>_ s9.
                            Inr (g,
                              if last_leaf (file_hdr s9) = get_page_no s9 h \<or>
                                 next_leaf (node_of s9 g) = IX_LEAF_HEADER_PAGE
                              then set_last_leaf (get_page_no s9 g) s9 else s9)))
                 else
                   ix_bind (maintain_children g [0..get_size (node_of s4 g) - 1] s4)
                     (\<lambda>_ s5. Inr (g, s5)))) =
     (if is_leaf n then
        ix_bind
          (if next_leaf n \<noteq> IX_NO_PAGE then
             ix_bind (fetch_node (next_leaf n) s7) (\<lambda>next s8.
               Inr ((), snd (unpin next True
                 (update_node next (\<lambda>n. n\<lparr>prev_leaf := get_page_no s8 g\<rparr>) s8))))
           else Inr ((), s7))
          (\<lambda>_ s9. Inr (g,
               if last_leaf (file_hdr s9) = get_page_no s9 h \<or>
                  next_leaf (node_of s9 g) = IX_LEAF_HEADER_PAGE
               then set_last_leaf (get_page_no s9 g) s9 else s9))
      else ix_bind (maintain_children g [0..get_size right0 - 1] s4) (\<lambda>_ s5. Inr (g, s5)))"
proof -
  have hh1: "held s1 h p" and gh: "h \<noteq> g" and n1: "node_of s1 h = node_of s h" using C hd by blast+
  have pi1: "pool_inv (buffer_pool_manager s1)" and hg1: "held s1 g p'" using C by (simp_all add: p'_def)
  have nh: "node_of s1 h = n" using n1 held_node(1)[OF pi hd] by (simp add: n_def)
  have ng: "node_of s1 g = 0" using held_node(1)[OF pi1 hg1] C by (simp add: p'_def)
  have lh: "h < length (pages (buffer_pool_manager s1))" and lg: "g < length (pages (buffer_pool_manager s1))"
    using held_lt[OF hh1] held_lt[OF hg1] by simp_all
  have ph: "get_page_no s1 h = p" and pg: "get_page_no s1 g = p'"
    using held_node(2)[OF pi1 hh1] held_node(2)[OF pi1 hg1] by simp_all
  have len: "int (length (entries n)) = get_size n" by (simp add: get_size_def)
  have mv: "take (nat (get_size n - get_size n div 2)) (drop (nat (get_size n div 2)) (entries n)) =
            drop (nat mid) (entries n)"
    unfolding mid_def by (rule take_drop_all[OF len])
  have sz0: "0 \<le> get_size n" by (simp add: get_size_def)
  have le: "int (length (entries n)) - get_size n div 2 \<le> max_size (file_hdr s)"
    using cap[folded n_def] len by simp
  have ip: "insert_pairs (max_size (file_hdr s)) 0 (drop (nat mid) (entries n))
      \<lparr>is_leaf = is_leaf n, parent = parent n, prev_leaf = IX_NO_PAGE, next_leaf = IX_NO_PAGE, entries = []\<rparr>
     = Inr right0"
    using le sz0 by (simp add: insert_pairs_def get_size_def right0_def mid_def nat_diff_distrib')
  have hdr1: "max_size (file_hdr s1) = max_size (file_hdr s)" using C by simp
  show ?thesis
    using gh gh[symmetric] lh lg
    by (simp add: Let_def nh ng node_of_update_node node_of_put_node zero_node_update mv[unfolded mid_def]
        ip[unfolded right0_def mid_def] hdr1 ph pg
        s4_def s7_def right0_def mid_def)
qed

lemma ix_ok_cases:
  assumes "\<And>e. r = Inl e \<Longrightarrow> e = AssertFetchNode \<or> e = NullPage"
    and "\<And>x s'. r = Inr (x, s') \<Longrightarrow> Q x s'"
  shows "ix_ok r Q"
proof (cases r)
  case (Inl e)
  then show ?thesis using assms(1) by (auto simp: ix_ok_def pool_exhausted_def)
next
  case (Inr a)
  then show ?thesis using assms(2)[of "fst a" "snd a"] by (cases a) (simp add: ix_ok_def)
qed

lemma fetch_node_Inl:
  assumes "pool_inv (buffer_pool_manager s)" "allocated s c" "fetch_node c s = Inl e"
  shows "e = AssertFetchNode \<or> e = NullPage"
  using fetch_node_ok[OF assms(1,2)] assms(3) by (simp add: ix_ok_def pool_exhausted_def)

lemma split_ok:
  assumes pi: "pool_inv (buffer_pool_manager s)" and hd: "held s h p"
    and cap: "get_size (content s p) - get_size (content s p) div 2 \<le> max_size (file_hdr s)"
    and lf: "is_leaf (content s p) \<Longrightarrow> next_leaf (content s p) \<noteq> IX_NO_PAGE \<Longrightarrow>
             allocated s (next_leaf (content s p))"
    and ch: "\<not> is_leaf (content s p) \<Longrightarrow>
             \<forall>e \<in> set (drop (nat (get_size (content s p) div 2)) (entries (content s p))).
               allocated s (rid_page_no (snd e))"
  shows "ix_ok (split h s) (\<lambda>g s'.
      pool_inv (buffer_pool_manager s') \<and> held s' g (next_page s) \<and>
      (\<forall>g' q. held s g' q \<longrightarrow> held s' g' q \<and> g' \<noteq> g) \<and>
      next_page s' = next_page s + 1 \<and> ih_fd s' = ih_fd s \<and> binary_search s' = binary_search s \<and>
      file_hdr s' = (file_hdr s)\<lparr>num_pages := num_pages (file_hdr s) + 1,
          last_leaf := (if is_leaf (content s p) \<and>
                           (last_leaf (file_hdr s) = p \<or> next_leaf (content s p) = IX_LEAF_HEADER_PAGE)
                        then next_page s else last_leaf (file_hdr s))\<rparr> \<and>
      content s' = split_content p (next_page s) (content s) \<and>
      pins s' = (pins s)(pid_of s (next_page s) := 1))"
  unfolding split_def
proof (rule ix_ok_bind[OF create_node_ok[OF pi]])
  fix g s1
  assume C: "pool_inv (buffer_pool_manager s1) \<and> held s1 g (next_page s) \<and>
      next_page s1 = next_page s + 1 \<and>
      file_hdr s1 = (file_hdr s)\<lparr>num_pages := num_pages (file_hdr s) + 1\<rparr> \<and>
      ih_fd s1 = ih_fd s \<and> binary_search s1 = binary_search s \<and>
      (\<forall>q. content s1 q = (if q = next_page s then 0 else content s q)) \<and>
      (\<forall>q. pins s1 q = pins s q + (if q = pid_of s (next_page s) then 1 else 0)) \<and>
      pins s (pid_of s (next_page s)) = 0 \<and>
      (\<forall>g' q. held s g' q \<longrightarrow> held s1 g' q \<and> g' \<noteq> g \<and> node_of s1 g' = node_of s g')"
  define n where "n = content s p"
  define p' where "p' = next_page s"
  define mid where "mid = get_size n div 2"
  define right0 where "right0 = \<lparr>is_leaf = is_leaf n, parent = parent n, prev_leaf = IX_NO_PAGE,
                       next_leaf = IX_NO_PAGE, entries = drop (nat mid) (entries n)\<rparr>"
  define s4 where "s4 = update_node h (set_size mid)
                  (put_node g right0
                    (update_node g (\<lambda>x. x\<lparr>is_leaf := is_leaf n, parent := parent n, entries := [],
                                         prev_leaf := IX_NO_PAGE, next_leaf := IX_NO_PAGE\<rparr>) s1))"
  define s7 where "s7 = update_node h (\<lambda>x. x\<lparr>next_leaf := p'\<rparr>)
                  (update_node g (\<lambda>x. x\<lparr>next_leaf := next_leaf n\<rparr>)
                    (update_node g (\<lambda>x. x\<lparr>prev_leaf := p\<rparr>) s4))"
  define c4 where "c4 = (content s)(p := n\<lparr>entries := take (nat mid) (entries n)\<rparr>, p' := right0)"
  note E = split_eval[OF pi hd cap C, folded n_def p'_def, folded mid_def, folded right0_def,
      folded s4_def, folded s7_def]
  note P = split_prefix[OF pi hd cap C, folded n_def p'_def, folded mid_def, folded right0_def,
      folded s4_def, folded c4_def]
  note D4 = same_butD[OF P(1)]
  have pn1: "pins s1 = (pins s)(pid_of s p' := 1)" using C by (auto simp: fun_eq_iff p'_def)
  have hdr1: "file_hdr s1 = (file_hdr s)\<lparr>num_pages := num_pages (file_hdr s) + 1\<rparr>"
     "ih_fd s1 = ih_fd s" "binary_search s1 = binary_search s" "next_page s1 = p' + 1"
    using C by (simp_all add: p'_def)
  have held1: "\<And>g' q. held s g' q \<Longrightarrow> held s1 g' q \<and> g' \<noteq> g" using C by blast
  let ?Q = "\<lambda>g s'.
      pool_inv (buffer_pool_manager s') \<and> held s' g p' \<and>
      (\<forall>g' q. held s g' q \<longrightarrow> held s' g' q \<and> g' \<noteq> g) \<and>
      next_page s' = p' + 1 \<and> ih_fd s' = ih_fd s \<and> binary_search s' = binary_search s \<and>
      file_hdr s' = (file_hdr s)\<lparr>num_pages := num_pages (file_hdr s) + 1,
          last_leaf := (if is_leaf n \<and> (last_leaf (file_hdr s) = p \<or> next_leaf n = IX_LEAF_HEADER_PAGE)
                        then p' else last_leaf (file_hdr s))\<rparr> \<and>
      content s' = split_content p p' (content s) \<and>
      pins s' = (pins s)(pid_of s p' := 1)"
  have "ix_ok (if is_leaf n then
        ix_bind
          (if next_leaf n \<noteq> IX_NO_PAGE then
             ix_bind (fetch_node (next_leaf n) s7) (\<lambda>next s8.
               Inr ((), snd (unpin next True
                 (update_node next (\<lambda>n. n\<lparr>prev_leaf := get_page_no s8 g\<rparr>) s8))))
           else Inr ((), s7))
          (\<lambda>_ s9. Inr (g,
               if last_leaf (file_hdr s9) = get_page_no s9 h \<or>
                  next_leaf (node_of s9 g) = IX_LEAF_HEADER_PAGE
               then set_last_leaf (get_page_no s9 g) s9 else s9))
      else ix_bind (maintain_children g [0..get_size right0 - 1] s4) (\<lambda>_ s5. Inr (g, s5))) ?Q"
  proof (cases "is_leaf n")
    case False
    have nl4: "\<not> is_leaf (content s4 p')" using False P(5) by (simp add: D4(2) c4_def right0_def)
    have c4p': "content s4 p' = right0" by (simp add: D4(2) c4_def)
    have al4: "\<forall>i \<in> set [0..get_size right0 - 1]. 0 \<le> i \<and> i < get_size (content s4 p') \<and>
        allocated s4 (child_at (content s4 p') i)"
    proof
      fix i assume i: "i \<in> set [0..get_size right0 - 1]"
      then have r: "0 \<le> i" "i < get_size right0" by simp_all
      have "child_at right0 i \<in> child_at right0 ` set [0..get_size right0 - 1]" using i by blast
      then have "child_at right0 i \<in> (\<lambda>e. rid_page_no (snd e)) ` set (entries right0)"
        by (simp only: child_at_image)
      then obtain e where e: "e \<in> set (drop (nat mid) (entries n))" "child_at right0 i = rid_page_no (snd e)"
        by (auto simp: right0_def)
      have "allocated s (rid_page_no (snd e))" using ch False e(1) by (simp add: n_def mid_def)
      then have "allocated s4 (rid_page_no (snd e))"
        using D4(7) hdr1(4) by (simp add: allocated_def p'_def)
      then show "0 \<le> i \<and> i < get_size (content s4 p') \<and> allocated s4 (child_at (content s4 p') i)"
        using r e(2) by (simp add: c4p')
    qed
    have "ix_ok (ix_bind (maintain_children g [0..get_size right0 - 1] s4) (\<lambda>_ s5. Inr (g, s5))) ?Q"
    proof (rule ix_ok_bind[OF maintain_children_ok[OF D4(1) P(3) nl4 al4]])
      fix x s5
      assume M: "pool_inv (buffer_pool_manager s5) \<and>
        content s5 = reparent p' (child_at (content s4 p') ` set [0..get_size right0 - 1]) (content s4) \<and>
        pins s5 = pins s4 \<and> file_hdr s5 = file_hdr s4 \<and> ih_fd s5 = ih_fd s4 \<and>
        binary_search s5 = binary_search s4 \<and> next_page s5 = next_page s4 \<and>
        (\<forall>g q. held s4 g q \<longrightarrow> held s5 g q)"
      have img: "child_at (content s4 p') ` set [0..get_size right0 - 1] =
          (\<lambda>e. rid_page_no (snd e)) ` set (drop (nat mid) (entries n))"
        unfolding c4p' child_at_image by (simp add: right0_def)
      from M have "content s5 = reparent p' (child_at (content s4 p') ` set [0..get_size right0 - 1]) (content s4)"
        by blast
      then have "content s5 = reparent p' ((\<lambda>e. rid_page_no (snd e)) ` set (drop (nat mid) (entries n))) (content s4)"
        by (simp only: img)
      then have "content s5 = reparent p' ((\<lambda>e. rid_page_no (snd e)) ` set (drop (nat mid) (entries n))) c4"
        by (simp only: D4(2))
      then have ct: "content s5 = split_content p p' (content s)"
        using False P(5)
        by (simp add: c4_def right0_def split_content_def Let_def
            n_def[symmetric] mid_def[symmetric] fun_upd_twist)
      have hl: "held s5 g' q \<and> g' \<noteq> g" if "held s g' q" for g' q
        using held1[OF that] D4(8) M by blast
      have "?Q g s5"
        using M ct hl P(3) D4 hdr1 pn1 False by (auto simp: p'_def)
      then show "ix_ok (Inr (g, s5)) ?Q" by (rule ix_okI[of "Inr (g, s5)" g s5, OF refl])
    qed
    then show ?thesis using False by simp
  next
    case True
    let ?x = "next_leaf n"
    let ?s5 = "update_node g (\<lambda>x. x\<lparr>prev_leaf := p\<rparr>) s4"
    let ?s6 = "update_node g (\<lambda>x. x\<lparr>next_leaf := next_leaf n\<rparr>) ?s5"
    have S5: "same_but s4 ?s5 ((content s4)(p' := (content s4 p')\<lparr>prev_leaf := p\<rparr>))"
      by (rule same_but_update_node[OF D4(1) P(3)])
    note D5 = same_butD[OF S5]
    have S6: "same_but ?s5 ?s6 ((content ?s5)(p' := (content ?s5 p')\<lparr>next_leaf := next_leaf n\<rparr>))"
      by (rule same_but_update_node[OF D5(1) D5(8)[OF P(3)]])
    note D6 = same_butD[OF S6]
    have h6: "held ?s6 h p" using D6(8) D5(8) P(2) by blast
    have S7: "same_but ?s6 s7 ((content ?s6)(p := (content ?s6 p)\<lparr>next_leaf := p'\<rparr>))"
      unfolding s7_def by (rule same_but_update_node[OF D6(1) h6])
    define c7 where "c7 = (content s)(p := n\<lparr>entries := take (nat mid) (entries n), next_leaf := p'\<rparr>,
        p' := \<lparr>is_leaf = True, parent = parent n, prev_leaf = p, next_leaf = next_leaf n,
               entries = drop (nat mid) (entries n)\<rparr>)"
    have "(content ?s6)(p := (content ?s6 p)\<lparr>next_leaf := p'\<rparr>) = c7"
      using P(5) True by (auto simp: fun_eq_iff D6(2) D5(2) D4(2) c4_def c7_def right0_def)
    with same_but_trans[OF same_but_trans[OF S5 S6] S7] have S47: "same_but s4 s7 c7" by simp
    have S17: "same_but s1 s7 c7" by (rule same_but_trans[OF P(1) S47])
    note D7 = same_butD[OF S17]
    have fin: "ix_ok (Inr (g, if last_leaf (file_hdr s9) = get_page_no s9 h \<or>
                  next_leaf (node_of s9 g) = IX_LEAF_HEADER_PAGE
               then set_last_leaf (get_page_no s9 g) s9 else s9)) ?Q"
      if S: "same_but s7 s9 c9" and c9: "c9 = split_content p p' (content s)"
        and nx: "next_leaf (c9 p') = next_leaf n" for s9 c9
    proof -
      note D9 = same_butD[OF same_but_trans[OF S17 S]]
      have hg9: "held s9 g p'" and hh9: "held s9 h p"
        using D9(8) C hd by (auto simp: p'_def)
      have pg: "get_page_no s9 g = p'" "get_page_no s9 h = p"
        using held_node(2)[OF D9(1) hg9] held_node(2)[OF D9(1) hh9] by simp_all
      have ng: "next_leaf (node_of s9 g) = next_leaf n"
        using held_node(1)[OF D9(1) hg9] nx D9(2) by simp
      have hl: "held s9 g' q \<and> g' \<noteq> g" if "held s g' q" for g' q
        using held1[OF that] D9(8) by blast
      let ?sF = "if last_leaf (file_hdr s9) = get_page_no s9 h \<or>
                  next_leaf (node_of s9 g) = IX_LEAF_HEADER_PAGE
               then set_last_leaf (get_page_no s9 g) s9 else s9"
      have "?Q g ?sF"
        using D9 hg9 hl hdr1 pn1 True c9
        by (auto simp: pg ng set_last_leaf_def)
      then show ?thesis by (rule ix_okI[of "Inr (g, ?sF)" g ?sF, OF refl])
    qed
    have sc: "split_content p p' (content s) =
        (if ?x \<noteq> IX_NO_PAGE then c7(?x := (c7 ?x)\<lparr>prev_leaf := p'\<rparr>) else c7)"
      using True P(5) by (simp add: split_content_def Let_def n_def[symmetric] mid_def[symmetric] c7_def)
    show ?thesis
    proof (cases "?x = IX_NO_PAGE")
      case x: True
      have "ix_ok (ix_bind (Inr ((), s7)) (\<lambda>_ s9. Inr (g,
               if last_leaf (file_hdr s9) = get_page_no s9 h \<or>
                  next_leaf (node_of s9 g) = IX_LEAF_HEADER_PAGE
               then set_last_leaf (get_page_no s9 g) s9 else s9))) ?Q"
        unfolding ix_bind_def
        using fin[OF same_but_refl[OF D7(1)], unfolded D7(2)] sc x P(5)
        by (simp add: c7_def)
      then show ?thesis using True x by simp
    next
      case x: False
      have ax: "allocated s ?x" using lf True x by (simp add: n_def)
      then have xp: "?x \<noteq> p'" by (simp add: allocated_def p'_def)
      have ax7: "allocated s7 ?x" using ax D7(7) hdr1(4) by (simp add: allocated_def p'_def)
      have "ix_ok (ix_bind (ix_bind (fetch_node ?x s7) (\<lambda>next s8.
               Inr ((), snd (unpin next True
                 (update_node next (\<lambda>n. n\<lparr>prev_leaf := get_page_no s8 g\<rparr>) s8)))))
            (\<lambda>_ s9. Inr (g,
               if last_leaf (file_hdr s9) = get_page_no s9 h \<or>
                  next_leaf (node_of s9 g) = IX_LEAF_HEADER_PAGE
               then set_last_leaf (get_page_no s9 g) s9 else s9))) ?Q"
      proof (cases "fetch_node ?x s7")
        case (Inl e)
        from fetch_node_Inl[OF D7(1) ax7 Inl] show ?thesis
          using Inl by (auto simp: ix_bind_def ix_ok_def pool_exhausted_def)
      next
        case (Inr a)
        obtain gx s8 where a: "a = (gx, s8)" by (cases a)
        note T = touch_spec[OF D7(1) ax7 Inr[unfolded a], where f="\<lambda>n. n\<lparr>prev_leaf := p'\<rparr>"]
        have hg7: "held s7 g p'" using D7(8) C by (auto simp: p'_def)
        have pg8: "get_page_no s8 g = p'" using T hg7 by blast
        have S9: "same_but s7 (snd (unpin gx True (update_node gx (\<lambda>n. n\<lparr>prev_leaf := p'\<rparr>) s8)))
            ((content s7)(?x := (content s7 ?x)\<lparr>prev_leaf := p'\<rparr>))"
          by (rule same_but_touch[OF D7(1) ax7 Inr[unfolded a]])
        have "ix_ok (Inr (g, if last_leaf (file_hdr (snd (unpin gx True (update_node gx (\<lambda>n. n\<lparr>prev_leaf := p'\<rparr>) s8)))) =
                  get_page_no (snd (unpin gx True (update_node gx (\<lambda>n. n\<lparr>prev_leaf := p'\<rparr>) s8))) h \<or>
                  next_leaf (node_of (snd (unpin gx True (update_node gx (\<lambda>n. n\<lparr>prev_leaf := p'\<rparr>) s8))) g) = IX_LEAF_HEADER_PAGE
               then set_last_leaf (get_page_no (snd (unpin gx True (update_node gx (\<lambda>n. n\<lparr>prev_leaf := p'\<rparr>) s8))) g)
                      (snd (unpin gx True (update_node gx (\<lambda>n. n\<lparr>prev_leaf := p'\<rparr>) s8)))
               else snd (unpin gx True (update_node gx (\<lambda>n. n\<lparr>prev_leaf := p'\<rparr>) s8)))) ?Q"
          by (rule fin[OF S9]) (use sc x xp P(5) in \<open>simp_all add: D7(2) c7_def\<close>)
        then show ?thesis using Inr a pg8 by (simp add: ix_bind_def)
      qed
      then show ?thesis using True x by simp
    qed
  qed
  then show "ix_ok (let s2 = update_node g (\<lambda>n. n\<lparr>is_leaf := is_leaf (node_of s1 h),
                  parent := parent (node_of s1 h), entries := [],
                  prev_leaf := IX_NO_PAGE, next_leaf := IX_NO_PAGE\<rparr>) s1;
           total = get_size (node_of s2 h);
           mid = total div 2;
           move_num = total - mid;
           moved = take (nat move_num) (drop (nat mid) (entries (node_of s2 h)))
       in case insert_pairs (max_size (file_hdr s2)) 0 moved (node_of s2 g) of
            Inl e \<Rightarrow> Inl e
          | Inr nn \<Rightarrow>
             (let s3 = put_node g nn s2;
                  s4 = update_node h (set_size mid) s3
              in if is_leaf (node_of s4 g) then
                   (let s5 = update_node g (\<lambda>n. n\<lparr>prev_leaf := get_page_no s4 h\<rparr>) s4;
                        s6 = update_node g (\<lambda>n. n\<lparr>next_leaf := next_leaf (node_of s5 h)\<rparr>) s5;
                        s7 = update_node h (\<lambda>n. n\<lparr>next_leaf := get_page_no s6 g\<rparr>) s6
                    in ix_bind
                         (if next_leaf (node_of s7 g) \<noteq> IX_NO_PAGE then
                            ix_bind (fetch_node (next_leaf (node_of s7 g)) s7) (\<lambda>next s8.
                              Inr ((), snd (unpin next True
                                (update_node next (\<lambda>n. n\<lparr>prev_leaf := get_page_no s8 g\<rparr>) s8))))
                          else Inr ((), s7))
                         (\<lambda>_ s9.
                            Inr (g,
                              if last_leaf (file_hdr s9) = get_page_no s9 h \<or>
                                 next_leaf (node_of s9 g) = IX_LEAF_HEADER_PAGE
                              then set_last_leaf (get_page_no s9 g) s9 else s9)))
                 else
                   ix_bind (maintain_children g [0..get_size (node_of s4 g) - 1] s4)
                     (\<lambda>_ s5. Inr (g, s5))))
      (\<lambda>g s'.
      pool_inv (buffer_pool_manager s') \<and> held s' g (next_page s) \<and>
      (\<forall>g' q. held s g' q \<longrightarrow> held s' g' q \<and> g' \<noteq> g) \<and>
      next_page s' = next_page s + 1 \<and> ih_fd s' = ih_fd s \<and> binary_search s' = binary_search s \<and>
      file_hdr s' = (file_hdr s)\<lparr>num_pages := num_pages (file_hdr s) + 1,
          last_leaf := (if is_leaf (content s p) \<and>
                           (last_leaf (file_hdr s) = p \<or> next_leaf (content s p) = IX_LEAF_HEADER_PAGE)
                        then next_page s else last_leaf (file_hdr s))\<rparr> \<and>
      content s' = split_content p (next_page s) (content s) \<and>
      pins s' = (pins s)(pid_of s (next_page s) := 1))"
    unfolding E n_def p'_def .
qed

text \<open>Pin counts of the frames, to count the frames a fetch can use.\<close>

lemma fetch_page_frame_pins:
  assumes "pool_inv b" "fetch_page p b = (Some f, b')"
  shows "f < length (pages b)" "length (pages b') = length (pages b)"
    "\<And>g. pin_count (pages b' ! g) = pin_count (pages b ! g) + (if g = f then 1 else 0)"
proof -
  note B = bpm_invD[OF pool_invD(1)[OF assms(1)]]
  have "f < length (pages b) \<and> length (pages b') = length (pages b) \<and>
    (\<forall>g. pin_count (pages b' ! g) = pin_count (pages b ! g) + (if g = f then 1 else 0))"
  proof (cases "map_of (page_table b) p")
    case None
    note M = fetch_page_miss_state[OF assms(1) None assms(2)]
    show ?thesis using M(1,2,3,4,8) by auto
  next
    case (Some f0)
    from fetch_page_hit[OF Some] assms(2) have e: "f = f0"
      "b' = b\<lparr>pages := (pages b)[f0 := (pages b ! f0)\<lparr>pin_count := pin_count (pages b ! f0) + 1\<rparr>],
               replacer := replacer_pin f0 (replacer b)\<rparr>" by simp_all
    have "f0 < length (pages b)" using B(1)[OF Some] by simp
    then show ?thesis unfolding e by (simp add: nth_list_update_gen)
  qed
  then show "f < length (pages b)" "length (pages b') = length (pages b)"
    "\<And>g. pin_count (pages b' ! g) = pin_count (pages b ! g) + (if g = f then 1 else 0)" by blast+
qed

lemma new_page_frame_pins:
  assumes "pool_inv b" "new_page fdn b = (Some (f, pid), b')"
  shows "f < length (pages b)" "length (pages b') = length (pages b)"
    "\<And>g. pin_count (pages b' ! g) = pin_count (pages b ! g) + (if g = f then 1 else 0)"
  using new_page_state(1,2,4,5,9)[OF assms] by auto

lemma new_page_succeeds:
  assumes "free_list b \<noteq> [] \<or> replacer b \<noteq> []"
  shows "fst (new_page fdn b) \<noteq> None"
  using assms
  by (auto simp: new_page_def find_victim_page_def replacer_victim_def Let_def
      split: option.splits list.splits prod.splits)

lemma unpinned_frame_avail:
  assumes "pool_inv b" "f < length (pages b)" "pin_count (pages b ! f) = 0"
  shows "free_list b \<noteq> [] \<or> replacer b \<noteq> []"
  using pool_invD(5)[OF assms] by auto

definition frame_pin :: "'k IxIndexHandle \<Rightarrow> frame_id_t \<Rightarrow> int" where
  "frame_pin s f = pin_count (pages (buffer_pool_manager s) ! f)"

definition frame_count :: "'k IxIndexHandle \<Rightarrow> nat" where
  "frame_count s = length (pages (buffer_pool_manager s))"

lemma frame_pin_update_node [simp]:
  "frame_pin (update_node h f s) = frame_pin s" "frame_count (update_node h f s) = frame_count s"
  "frame_pin (put_node h n s) = frame_pin s" "frame_count (put_node h n s) = frame_count s"
  "frame_pin (s\<lparr>file_hdr := X\<rparr>) = frame_pin s" "frame_count (s\<lparr>file_hdr := X\<rparr>) = frame_count s"
  by (auto simp: frame_pin_def frame_count_def update_node_def put_node_def nth_list_update_gen fun_eq_iff)

lemma fetch_node_returns:
  assumes "pool_inv (buffer_pool_manager s)" "f < frame_count s" "frame_pin s f = 0"
  shows "\<exists>h s1. fetch_node p s = Inr (h, s1)"
  by (rule fetch_node_avail)
     (use unpinned_frame_avail[OF assms(1)] assms(2,3) in \<open>auto simp: frame_pin_def frame_count_def\<close>)

lemma fetch_node_frame_pins:
  assumes "pool_inv (buffer_pool_manager s)" "fetch_node p s = Inr (h, s1)"
  shows "h < frame_count s" "frame_count s1 = frame_count s"
    "\<And>g. frame_pin s1 g = frame_pin s g + (if g = h then 1 else 0)"
proof -
  obtain b' where f: "fetch_page \<lparr>fd = ih_fd s, page_no = p\<rparr> (buffer_pool_manager s) = (Some h, b')"
    and s1: "s1 = s\<lparr>buffer_pool_manager := b'\<rparr>"
    using assms(2) by (auto simp: fetch_node_def split: prod.splits option.splits)
  note F = fetch_page_frame_pins[OF assms(1) f]
  show "h < frame_count s" "frame_count s1 = frame_count s"
    "\<And>g. frame_pin s1 g = frame_pin s g + (if g = h then 1 else 0)"
    using F by (simp_all add: frame_pin_def frame_count_def s1)
qed

lemma create_node_returns:
  assumes "pool_inv (buffer_pool_manager s)" "f < frame_count s" "frame_pin s f = 0"
  shows "\<exists>h s1. create_node s = Inr (h, s1)"
proof -
  have "free_list (buffer_pool_manager s) \<noteq> [] \<or> replacer (buffer_pool_manager s) \<noteq> []"
    using unpinned_frame_avail[OF assms(1)] assms(2,3) by (auto simp: frame_pin_def frame_count_def)
  from new_page_succeeds[OF this, of "ih_fd s"] show ?thesis
    by (auto simp: create_node_def Let_def split: prod.splits option.splits)
qed

lemma create_node_frame_pins:
  assumes "pool_inv (buffer_pool_manager s)" "create_node s = Inr (h, s1)"
  shows "h < frame_count s" "frame_count s1 = frame_count s"
    "\<And>g. frame_pin s1 g = frame_pin s g + (if g = h then 1 else 0)"
proof -
  obtain b' pid where f: "new_page (ih_fd s) (buffer_pool_manager s) = (Some (h, pid), b')"
    and s1: "s1 = s\<lparr>file_hdr := (file_hdr s)\<lparr>num_pages := num_pages (file_hdr s) + 1\<rparr>,
                    buffer_pool_manager := b'\<rparr>"
    using assms(2) by (auto simp: create_node_def Let_def split: prod.splits option.splits)
  note F = new_page_frame_pins[OF assms(1) f]
  show "h < frame_count s" "frame_count s1 = frame_count s"
    "\<And>g. frame_pin s1 g = frame_pin s g + (if g = h then 1 else 0)"
    using F by (simp_all add: frame_pin_def frame_count_def s1)
qed

lemma unpin_frame_pins:
  assumes "pool_inv (buffer_pool_manager s)" "held s h p" "d \<or> clean s h"
  shows "frame_count (snd (unpin h d s)) = frame_count s"
    "\<And>g. frame_pin (snd (unpin h d s)) g = frame_pin s g - (if g = h then 1 else 0)"
proof -
  let ?b = "buffer_pool_manager s"
  obtain ok b' where u: "unpin_page (pid_of s p) d ?b = (ok, b')" by (cases "unpin_page (pid_of s p) d ?b")
  from assms(2) have h: "h < length (pages ?b)" "page_id (pages ?b ! h) = pid_of s p"
    "0 < pin_count (pages ?b ! h)" "0 \<le> p"
    by (simp_all add: held_def allocated_def)
  have vp: "page_no (pid_of s p) \<noteq> INVALID_PAGE_ID" using h(4) by (simp add: pid_of_def INVALID_PAGE_ID_def)
  have c: "d \<or> 1 < pin_count (pages ?b ! h) \<or> is_dirty (pages ?b ! h) \<or>
       data (pages ?b ! h) = disk_pages (disk_manager ?b) (pid_of s p)"
    using assms(3) h(2) by (auto simp: clean_def)
  note U = unpin_page_spec[OF assms(1) h(1,2) vp h(3) c u]
  have e: "unpin h d s = (ok, s\<lparr>buffer_pool_manager := b'\<rparr>)"
    using u h(2) by (simp add: unpin_def get_page_id_def)
  show "frame_count (snd (unpin h d s)) = frame_count s" using e U(3) by (simp add: frame_count_def)
  show "frame_pin (snd (unpin h d s)) g = frame_pin s g - (if g = h then 1 else 0)" for g
    using e U(4)[of g] U(7) by (auto simp: frame_pin_def)
qed

lemma touch_frame_pins:
  assumes pi: "pool_inv (buffer_pool_manager s)" and al: "allocated s c"
    and fn: "fetch_node c s = Inr (g, s1)"
  shows "frame_count (snd (unpin g True (update_node g f s1))) = frame_count s"
    "frame_pin (snd (unpin g True (update_node g f s1))) = frame_pin s"
proof -
  note T = touch_spec[OF pi al fn, where f=f]
  have hg: "held s1 g c" and pi1: "pool_inv (buffer_pool_manager s1)" using T by blast+
  note U2 = update_node_spec[OF pi1 hg, where f=f]
  note U3 = unpin_frame_pins[OF U2(1) U2(6)[OF hg], where d=True, simplified]
  note F = fetch_node_frame_pins[OF pi fn]
  show "frame_count (snd (unpin g True (update_node g f s1))) = frame_count s"
    using U3(1) F(2) by simp
  show "frame_pin (snd (unpin g True (update_node g f s1))) = frame_pin s"
    using U3(2) F(3) by (auto simp: fun_eq_iff)
qed

lemma ix_bind_Inr: "ix_bind (Inr (x, s)) f = f x s"
  by (simp add: ix_bind_def)

lemma maintain_child_returns:
  assumes pi: "pool_inv (buffer_pool_manager s)" and hd: "held s h p"
    and int: "\<not> is_leaf (content s p)" and i: "0 \<le> i" "i < get_size (content s p)"
    and al: "allocated s (child_at (content s p) i)"
    and fr: "f < frame_count s" "frame_pin s f = 0"
  shows "\<exists>s'. maintain_child h i s = Inr ((), s') \<and> frame_pin s' = frame_pin s \<and>
           frame_count s' = frame_count s"
proof -
  let ?c = "child_at (content s p) i"
  note N = held_node[OF pi hd]
  have v: "value_at (node_of s h) i = Some ?c" using value_at_child_at[OF i] N(1) by simp
  obtain g s1 where fn: "fetch_node ?c s = Inr (g, s1)" using fetch_node_returns[OF pi fr] by blast
  note T = touch_spec[OF pi al fn, where f="\<lambda>n. n\<lparr>parent := p\<rparr>"]
  have pn: "get_page_no s1 h = p" using T hd by blast
  have r: "maintain_child h i s = Inr ((), snd (unpin g True (update_node g (\<lambda>n. n\<lparr>parent := p\<rparr>) s1)))"
    using int N(1) v fn pn by (simp add: maintain_child_def ix_bind_def Let_def)
  show ?thesis using r touch_frame_pins[OF pi al fn, where f="\<lambda>n. n\<lparr>parent := p\<rparr>"] by simp
qed

lemma maintain_children_returns:
  assumes "pool_inv (buffer_pool_manager s)" "held s h p" "\<not> is_leaf (content s p)"
    "\<forall>i \<in> set js. 0 \<le> i \<and> i < get_size (content s p) \<and> allocated s (child_at (content s p) i)"
    "f < frame_count s" "frame_pin s f = 0"
  shows "\<exists>s'. maintain_children h js s = Inr ((), s')"
  using assms
proof (induction js arbitrary: s)
  case Nil
  show ?case by simp
next
  case (Cons i js)
  let ?n = "content s p"
  let ?c = "child_at ?n i"
  have i: "0 \<le> i" "i < get_size ?n" "allocated s ?c" using Cons.prems(4) by simp_all
  obtain s1 where m: "maintain_child h i s = Inr ((), s1)" and fp: "frame_pin s1 = frame_pin s"
    and fc: "frame_count s1 = frame_count s"
    using maintain_child_returns[OF Cons.prems(1,2,3) i Cons.prems(5,6)] by blast
  note a = ix_ok_InrD[OF maintain_child_ok[OF Cons.prems(1,2,3) i] m]
  have c1: "content s1 = (content s)(?c := (content s ?c)\<lparr>parent := p\<rparr>)" using a by simp
  have e: "entries (content s1 p) = entries ?n" "is_leaf (content s1 p) = is_leaf ?n"
    unfolding c1 by simp_all
  have sz: "get_size (content s1 p) = get_size ?n" using e by (simp add: get_size_def)
  have ch: "child_at (content s1 p) = child_at ?n" using e by (simp add: child_at_def fun_eq_iff)
  have al: "allocated s1 = allocated s" by (rule allocated_cong) (use a in simp)
  have p4: "\<forall>i \<in> set js. 0 \<le> i \<and> i < get_size (content s1 p) \<and> allocated s1 (child_at (content s1 p) i)"
    using Cons.prems(4) sz ch al by simp
  have h1: "held s1 h p" using a Cons.prems(2) by blast
  have nl: "\<not> is_leaf (content s1 p)" using e Cons.prems(3) by simp
  have a1: "pool_inv (buffer_pool_manager s1)" using a by simp
  have f1: "f < frame_count s1" "frame_pin s1 f = 0" using Cons.prems(5,6) fp fc by simp_all
  from Cons.IH[OF a1 h1 nl p4 f1] obtain s' where "maintain_children h js s1 = Inr ((), s')" by blast
  then show ?case using m by (simp add: ix_bind_def)
qed

lemma split_returns:
  assumes pi: "pool_inv (buffer_pool_manager s)" and hd: "held s h p"
    and cap: "get_size (content s p) - get_size (content s p) div 2 \<le> max_size (file_hdr s)"
    and lf: "is_leaf (content s p) \<Longrightarrow> next_leaf (content s p) \<noteq> IX_NO_PAGE \<Longrightarrow>
             allocated s (next_leaf (content s p))"
    and ch: "\<not> is_leaf (content s p) \<Longrightarrow>
             \<forall>e \<in> set (drop (nat (get_size (content s p) div 2)) (entries (content s p))).
               allocated s (rid_page_no (snd e))"
    and fr: "f1 < frame_count s" "frame_pin s f1 = 0" "f2 < frame_count s" "frame_pin s f2 = 0" "f1 \<noteq> f2"
  shows "\<exists>g s'. split h s = Inr (g, s')"
proof -
  obtain g s1 where cn: "create_node s = Inr (g, s1)" using create_node_returns[OF pi fr(1,2)] by blast
  note C = ix_ok_InrD[OF create_node_ok[OF pi] cn]
  note F = create_node_frame_pins[OF pi cn]
  obtain f where f: "f < frame_count s1" "frame_pin s1 f = 0"
  proof (cases "g = f1")
    case True
    then have "f2 < frame_count s1" "frame_pin s1 f2 = 0" using F fr by simp_all
    then show ?thesis by (rule that)
  next
    case False
    then have "f1 < frame_count s1" "frame_pin s1 f1 = 0" using F fr by simp_all
    then show ?thesis by (rule that)
  qed
  define n where "n = content s p"
  define p' where "p' = next_page s"
  define mid where "mid = get_size n div 2"
  define right0 where "right0 = \<lparr>is_leaf = is_leaf n, parent = parent n, prev_leaf = IX_NO_PAGE,
                       next_leaf = IX_NO_PAGE, entries = drop (nat mid) (entries n)\<rparr>"
  define s4 where "s4 = update_node h (set_size mid)
                  (put_node g right0
                    (update_node g (\<lambda>x. x\<lparr>is_leaf := is_leaf n, parent := parent n, entries := [],
                                         prev_leaf := IX_NO_PAGE, next_leaf := IX_NO_PAGE\<rparr>) s1))"
  define s7 where "s7 = update_node h (\<lambda>x. x\<lparr>next_leaf := p'\<rparr>)
                  (update_node g (\<lambda>x. x\<lparr>next_leaf := next_leaf n\<rparr>)
                    (update_node g (\<lambda>x. x\<lparr>prev_leaf := p\<rparr>) s4))"
  define c4 where "c4 = (content s)(p := n\<lparr>entries := take (nat mid) (entries n)\<rparr>, p' := right0)"
  note E = split_eval[OF pi hd cap C, folded n_def p'_def, folded mid_def, folded right0_def,
      folded s4_def, folded s7_def]
  note P = split_prefix[OF pi hd cap C, folded n_def p'_def, folded mid_def, folded right0_def,
      folded s4_def, folded c4_def]
  note D4 = same_butD[OF P(1)]
  have f4: "f < frame_count s4" "frame_pin s4 f = 0" using f by (simp_all add: s4_def)
  have f7: "f < frame_count s7" "frame_pin s7 f = 0" using f4 by (simp_all add: s7_def)
  have pi7: "pool_inv (buffer_pool_manager s7)"
  proof -
    let ?s5 = "update_node g (\<lambda>x. x\<lparr>prev_leaf := p\<rparr>) s4"
    let ?s6 = "update_node g (\<lambda>x. x\<lparr>next_leaf := next_leaf n\<rparr>) ?s5"
    note D5 = same_butD[OF same_but_update_node[OF D4(1) P(3), where f="\<lambda>x. x\<lparr>prev_leaf := p\<rparr>"]]
    note D6 = same_butD[OF same_but_update_node[OF D5(1) D5(8)[OF P(3)], where f="\<lambda>x. x\<lparr>next_leaf := next_leaf n\<rparr>"]]
    have h6: "held ?s6 h p" using D6(8) D5(8) P(2) by blast
    show ?thesis unfolding s7_def
      using same_butD(1)[OF same_but_update_node[OF D6(1) h6, where f="\<lambda>x. x\<lparr>next_leaf := p'\<rparr>"]] .
  qed
  have "\<exists>r. (if is_leaf n then
        ix_bind
          (if next_leaf n \<noteq> IX_NO_PAGE then
             ix_bind (fetch_node (next_leaf n) s7) (\<lambda>next s8.
               Inr ((), snd (unpin next True
                 (update_node next (\<lambda>n. n\<lparr>prev_leaf := get_page_no s8 g\<rparr>) s8))))
           else Inr ((), s7))
          (\<lambda>_ s9. Inr (g,
               if last_leaf (file_hdr s9) = get_page_no s9 h \<or>
                  next_leaf (node_of s9 g) = IX_LEAF_HEADER_PAGE
               then set_last_leaf (get_page_no s9 g) s9 else s9))
      else ix_bind (maintain_children g [0..get_size right0 - 1] s4) (\<lambda>_ s5. Inr (g, s5))) = Inr r"
  proof (cases "is_leaf n")
    case True
    obtain gx s8 where "fetch_node (next_leaf n) s7 = Inr (gx, s8)"
      using fetch_node_returns[OF pi7 f7] by blast
    then show ?thesis using True by (simp add: ix_bind_def)
  next
    case False
    have nl4: "\<not> is_leaf (content s4 p')" using False P(5) by (simp add: D4(2) c4_def right0_def)
    have c4p': "content s4 p' = right0" by (simp add: D4(2) c4_def)
    have np1: "next_page s1 = p' + 1" using C by (simp add: p'_def)
    have al4: "\<forall>i \<in> set [0..get_size right0 - 1]. 0 \<le> i \<and> i < get_size (content s4 p') \<and>
        allocated s4 (child_at (content s4 p') i)"
    proof
      fix i assume i: "i \<in> set [0..get_size right0 - 1]"
      then have r: "0 \<le> i" "i < get_size right0" by simp_all
      have "child_at right0 i \<in> child_at right0 ` set [0..get_size right0 - 1]" using i by blast
      then have "child_at right0 i \<in> (\<lambda>e. rid_page_no (snd e)) ` set (entries right0)"
        by (simp only: child_at_image)
      then obtain e where e: "e \<in> set (drop (nat mid) (entries n))" "child_at right0 i = rid_page_no (snd e)"
        by (auto simp: right0_def)
      have "allocated s (rid_page_no (snd e))" using ch False e(1) by (simp add: n_def mid_def)
      then have "allocated s4 (rid_page_no (snd e))"
        using D4(7) np1 by (simp add: allocated_def p'_def)
      then show "0 \<le> i \<and> i < get_size (content s4 p') \<and> allocated s4 (child_at (content s4 p') i)"
        using r e(2) by (simp add: c4p')
    qed
    from maintain_children_returns[OF D4(1) P(3) nl4 al4 f4]
    obtain s5 where "maintain_children g [0..get_size right0 - 1] s4 = Inr ((), s5)" by blast
    then show ?thesis using False by (simp add: ix_bind_def)
  qed
  then obtain r where r: "(if is_leaf n then
        ix_bind
          (if next_leaf n \<noteq> IX_NO_PAGE then
             ix_bind (fetch_node (next_leaf n) s7) (\<lambda>next s8.
               Inr ((), snd (unpin next True
                 (update_node next (\<lambda>n. n\<lparr>prev_leaf := get_page_no s8 g\<rparr>) s8))))
           else Inr ((), s7))
          (\<lambda>_ s9. Inr (g,
               if last_leaf (file_hdr s9) = get_page_no s9 h \<or>
                  next_leaf (node_of s9 g) = IX_LEAF_HEADER_PAGE
               then set_last_leaf (get_page_no s9 g) s9 else s9))
      else ix_bind (maintain_children g [0..get_size right0 - 1] s4) (\<lambda>_ s5. Inr (g, s5))) = Inr r"
    by blast
  have "split h s = Inr r"
    unfolding split_def cn ix_bind_Inr E by (rule r)
  then show ?thesis by (cases r) auto
qed

lemma split_content_facts:
  assumes "p \<noteq> p'"
    "is_leaf (ct p) \<Longrightarrow> next_leaf (ct p) \<noteq> IX_NO_PAGE \<Longrightarrow> next_leaf (ct p) \<noteq> p'"
  shows "entries (split_content p p' ct p') = drop (nat (get_size (ct p) div 2)) (entries (ct p))"
    "entries (split_content p p' ct p) = take (nat (get_size (ct p) div 2)) (entries (ct p))"
    "is_leaf (split_content p p' ct p') = is_leaf (ct p)"
    "is_leaf (split_content p p' ct p) = is_leaf (ct p)"
    "is_leaf (ct p) \<Longrightarrow> parent (split_content p p' ct p') = parent (ct p)"
    "is_leaf (ct p) \<Longrightarrow> next_leaf (split_content p p' ct p) = p'"
    "is_leaf (ct p) \<Longrightarrow> prev_leaf (split_content p p' ct p') = p"
    "is_leaf (ct p) \<Longrightarrow> next_leaf (split_content p p' ct p') = next_leaf (ct p)"
    "is_leaf (ct p) \<Longrightarrow> next_leaf (ct p) \<noteq> IX_NO_PAGE \<Longrightarrow>
       prev_leaf (split_content p p' ct (next_leaf (ct p))) = p'"
  using assms by (auto simp: split_content_def Let_def)

definition ex_split_disk :: "int IxNode DiskManager" where
  "ex_split_disk =
     \<lparr>disk_pages = (\<lambda>pid.
        if page_no pid = 1 then \<lparr>is_leaf = True, parent = IX_NO_PAGE, prev_leaf = 2, next_leaf = 2, entries = []\<rparr>
        else if page_no pid = 2 then \<lparr>is_leaf = True, parent = IX_NO_PAGE, prev_leaf = IX_LEAF_HEADER_PAGE,
               next_leaf = IX_LEAF_HEADER_PAGE,
               entries = [(10, ex_rid 10), (20, ex_rid 20), (30, ex_rid 30), (40, ex_rid 40)]\<rparr>
        else 0),
      fd2pageno = (\<lambda>_. 3)\<rparr>"

definition ex_split_index :: "int IxIndexHandle" where
  "ex_split_index =
     \<lparr>file_hdr = \<lparr>root_page = 2, first_leaf = 2, last_leaf = 2, num_pages = 3, max_size = 4, min_size = 2\<rparr>,
      ih_fd = 0, binary_search = True,
      buffer_pool_manager =
        \<lparr>pages = replicate (Suc (Suc (Suc 0))) \<lparr>page_id = ex_pid INVALID_PAGE_ID, data = 0, is_dirty = False, pin_count = 0\<rparr>,
         page_table = [], free_list = [0..<Suc (Suc (Suc 0))], replacer = [],
         disk_manager = ex_split_disk\<rparr>\<rparr>"

text \<open>
  C4. \<^verbatim>\<open>split\<close> applied to a pinned node with \<open>n\<close> entries, \<open>mid = n div 2\<close>: when the
  assertion of \<^verbatim>\<open>insert_pairs\<close> holds (\<open>n - mid \<le> max_size\<close>), the pages it fetches are
  allocated (the old next leaf of a leaf, the moved children of an internal node) and two
  frames of the pool are unpinned, it returns a new pinned node on the next page number
  of the file. The new node holds exactly the old entries \<open>[mid, n)\<close> and has the leaf flag
  of the node, the node keeps exactly the entries \<open>[0, mid)\<close>. For a leaf the new node is
  spliced between the node and its old next leaf: the node's next leaf is the new node,
  the new node's previous leaf is the node and its next leaf the old next leaf, the old
  next leaf (when it is not \<open>IX_NO_PAGE\<close>) gets the new node as previous leaf, and the last
  leaf of the header becomes the new node when the node was the last leaf or its old next
  leaf was the leaf header page. \<open>split_content\<close> is the content of all pages afterwards
  (for an internal node the moved children get the new node as parent).
\<close>

theorem split_correct:
  assumes "pool_inv (buffer_pool_manager s)" and "held s h p"
    and "get_size (content s p) - get_size (content s p) div 2 \<le> max_size (file_hdr s)"
    and "is_leaf (content s p) \<Longrightarrow> next_leaf (content s p) \<noteq> IX_NO_PAGE \<Longrightarrow>
         allocated s (next_leaf (content s p))"
    and "\<not> is_leaf (content s p) \<Longrightarrow>
         \<forall>e \<in> set (drop (nat (get_size (content s p) div 2)) (entries (content s p))).
           allocated s (rid_page_no (snd e))"
    and "f1 < length (pages (buffer_pool_manager s))" "pin_count (pages (buffer_pool_manager s) ! f1) = 0"
    and "f2 < length (pages (buffer_pool_manager s))" "pin_count (pages (buffer_pool_manager s) ! f2) = 0"
    and "f1 \<noteq> f2"
  shows "\<exists>g s'. split h s = Inr (g, s') \<and> held s' g (next_page s) \<and> held s' h p \<and>
      entries (content s' (next_page s)) =
        drop (nat (get_size (content s p) div 2)) (entries (content s p)) \<and>
      entries (content s' p) = take (nat (get_size (content s p) div 2)) (entries (content s p)) \<and>
      is_leaf (content s' (next_page s)) = is_leaf (content s p) \<and>
      is_leaf (content s' p) = is_leaf (content s p) \<and>
      content s' = split_content p (next_page s) (content s) \<and>
      pins s' = (pins s)(pid_of s (next_page s) := 1) \<and>
      file_hdr s' = (file_hdr s)\<lparr>num_pages := num_pages (file_hdr s) + 1,
          last_leaf := (if is_leaf (content s p) \<and>
                           (last_leaf (file_hdr s) = p \<or> next_leaf (content s p) = IX_LEAF_HEADER_PAGE)
                        then next_page s else last_leaf (file_hdr s))\<rparr> \<and>
      (is_leaf (content s p) \<longrightarrow>
         parent (content s' (next_page s)) = parent (content s p) \<and>
         next_leaf (content s' p) = next_page s \<and>
         prev_leaf (content s' (next_page s)) = p \<and>
         next_leaf (content s' (next_page s)) = next_leaf (content s p) \<and>
         (next_leaf (content s p) \<noteq> IX_NO_PAGE \<longrightarrow>
            prev_leaf (content s' (next_leaf (content s p))) = next_page s))"
proof -
  have fr: "f1 < frame_count s" "frame_pin s f1 = 0" "f2 < frame_count s" "frame_pin s f2 = 0"
    using assms(6-9) by (simp_all add: frame_count_def frame_pin_def)
  obtain g s' where r: "split h s = Inr (g, s')"
    using split_returns[OF assms(1,2,3,4,5) fr assms(10)] by blast
  note Q = ix_ok_InrD[OF split_ok[OF assms(1,2,3,4,5)] r]
  have pp: "p \<noteq> next_page s" using held_allocated[OF assms(2)] by (simp add: allocated_def)
  have xp: "next_leaf (content s p) \<noteq> next_page s"
    if "is_leaf (content s p)" "next_leaf (content s p) \<noteq> IX_NO_PAGE"
    using assms(4)[OF that] by (auto simp: allocated_def)
  note S = split_content_facts[where ct="content s" and p=p and p'="next_page s", OF pp xp]
  have c: "content s' = split_content p (next_page s) (content s)" using Q by simp
  show ?thesis
    using r Q assms(2) S by (intro exI[of _ g] exI[of _ s']) (simp add: c)
qed

lemma ex_split_index_facts:
  "pool_inv (buffer_pool_manager ex_split_index)"
  "allocated ex_split_index 1" "allocated ex_split_index 2" "next_page ex_split_index = 3"
  "content ex_split_index 2 = \<lparr>is_leaf = True, parent = IX_NO_PAGE, prev_leaf = IX_LEAF_HEADER_PAGE,
               next_leaf = IX_LEAF_HEADER_PAGE,
               entries = [(10, ex_rid 10), (20, ex_rid 20), (30, ex_rid 30), (40, ex_rid 40)]\<rparr>"
  "frame_count ex_split_index = 3"
  "frame_pin ex_split_index (Suc 0) = 0" "frame_pin ex_split_index (Suc (Suc 0)) = 0"
  "file_hdr ex_split_index = \<lparr>root_page = 2, first_leaf = 2, last_leaf = 2, num_pages = 3, max_size = 4, min_size = 2\<rparr>"
proof -
  show "pool_inv (buffer_pool_manager ex_split_index)"
    by (rule fresh_pool_pool_inv)
      (simp_all add: ex_split_index_def fresh_pool_def ex_pid_def ex_split_disk_def)
qed (simp_all add: allocated_def next_page_def content_def page_content_def pid_of_def
      ex_split_index_def ex_split_disk_def frame_count_def frame_pin_def)

theorem split_correct_witness:
  "\<exists>h s1 g s'.
     fetch_node 2 ex_split_index = Inr (h, s1) \<and> split h s1 = Inr (g, s') \<and>
     held s' g 3 \<and>
     entries (content s' 3) = [(30, ex_rid 30), (40, ex_rid 40)] \<and>
     entries (content s' 2) = [(10, ex_rid 10), (20, ex_rid 20)] \<and>
     is_leaf (content s' 3) \<and> next_leaf (content s' 2) = 3 \<and> prev_leaf (content s' 3) = 2 \<and>
     next_leaf (content s' 3) = IX_LEAF_HEADER_PAGE \<and>
     prev_leaf (content s' IX_LEAF_HEADER_PAGE) = 3 \<and> last_leaf (file_hdr s') = 3"
proof -
  note E = ex_split_index_facts
  have "\<exists>s1. fetch_node 2 ex_split_index = Inr (0, s1)"
    by (simp add: fetch_node_def fetch_page_def find_victim_page_def update_page_def Let_def
        ex_split_index_def ex_pid_def INVALID_PAGE_ID_def)
  then obtain s1 where f: "fetch_node 2 ex_split_index = Inr (0, s1)" by blast
  note F = ix_ok_InrD[OF fetch_node_ok[OF E(1) E(3)] f]
  note P = fetch_node_frame_pins[OF E(1) f]
  have p1: "pool_inv (buffer_pool_manager s1)" "held s1 0 2" "content s1 = content ex_split_index"
    "next_page s1 = 3" "file_hdr s1 = file_hdr ex_split_index"
    using F E(4) by (auto simp: same_hdr_def)
  have fr: "Suc 0 < length (pages (buffer_pool_manager s1))"
    "pin_count (pages (buffer_pool_manager s1) ! Suc 0) = 0"
    "Suc (Suc 0) < length (pages (buffer_pool_manager s1))"
    "pin_count (pages (buffer_pool_manager s1) ! Suc (Suc 0)) = 0"
    using P(2) P(3)[of "Suc 0"] P(3)[of "Suc (Suc 0)"] E(6,7,8)
    by (simp_all add: frame_count_def frame_pin_def)
  have al: "allocated s1 (next_leaf (content s1 2))"
    using E(2) p1(4) E(4) by (simp add: p1(3) E(5) allocated_def IX_LEAF_HEADER_PAGE_def)
  have cap: "get_size (content s1 2) - get_size (content s1 2) div 2 \<le> max_size (file_hdr s1)"
    by (simp add: p1(3,5) E(5,9) get_size_def)
  have lf: "is_leaf (content s1 2)" by (simp add: p1(3) E(5))
  from split_correct[OF p1(1,2) cap al _ fr] lf
  obtain g s' where "split 0 s1 = Inr (g, s')" "held s' g (next_page s1)"
     "entries (content s' (next_page s1)) = drop (nat (get_size (content s1 2) div 2)) (entries (content s1 2))"
     "entries (content s' 2) = take (nat (get_size (content s1 2) div 2)) (entries (content s1 2))"
     "is_leaf (content s' (next_page s1))"
     "next_leaf (content s' 2) = next_page s1" "prev_leaf (content s' (next_page s1)) = 2"
     "next_leaf (content s' (next_page s1)) = next_leaf (content s1 2)"
     "next_leaf (content s1 2) \<noteq> IX_NO_PAGE \<longrightarrow> prev_leaf (content s' (next_leaf (content s1 2))) = next_page s1"
     "file_hdr s' = (file_hdr s1)\<lparr>num_pages := num_pages (file_hdr s1) + 1,
          last_leaf := (if is_leaf (content s1 2) \<and>
                           (last_leaf (file_hdr s1) = 2 \<or> next_leaf (content s1 2) = IX_LEAF_HEADER_PAGE)
                        then next_page s1 else last_leaf (file_hdr s1))\<rparr>"
    by auto
  then show ?thesis using f
    by (intro exI[of _ 0] exI[of _ s1] exI[of _ g] exI[of _ s'])
       (simp add: p1(3,4,5) E(5,9) get_size_def IX_LEAF_HEADER_PAGE_def IX_NO_PAGE_def)
qed

section \<open>Runs of the index operations\<close>









end
